theory Spec2Isabelle
  imports
    Complex_Main
    "HOL-Library.Word"
    "HOL-Library.Log_Nat"
    "HOL-Library.Char_ord"
    "HOL-Library.List_Lexorder"
begin

section \<open>Python values, exceptions and byte strings\<close>

text \<open>
  The parser of \<^verbatim>\<open>UserAssistParser.py\<close> is embedded function by function. An exception of
  the source is the left summand of a result, a returned value the right one.
\<close>

datatype error =
    SystemExit          \<comment> \<open>\<^verbatim>\<open>sys.exit\<close> on a file without the regf signature\<close>
  | StructError         \<comment> \<open>\<^verbatim>\<open>struct.unpack\<close> on a buffer of the wrong size\<close>
  | ValueError          \<comment> \<open>\<^verbatim>\<open>utcfromtimestamp\<close>: year out of range\<close>
  | TypeError           \<comment> \<open>iterating over \<^verbatim>\<open>None\<close>\<close>
  | IndexError          \<comment> \<open>a list index out of range\<close>
  | RegistryKeyNotFoundException

text \<open>The elements of \<^verbatim>\<open>ua_data\<close> are integers and strings.\<close>

datatype pyval = PyInt int | PyStr string

type_synonym byte = "8 word"

definition bind_err :: "error + 'a \<Rightarrow> ('a \<Rightarrow> error + 'b) \<Rightarrow> error + 'b" where
  "bind_err m f = (case m of Inl e \<Rightarrow> Inl e | Inr x \<Rightarrow> f x)"

text \<open>\<^verbatim>\<open>data[a:b]\<close> for \<open>0 \<le> a\<close>, \<open>0 \<le> b\<close>; \<^verbatim>\<open>data[a:]\<close> is \<open>drop a\<close>.\<close>

definition slice :: "nat \<Rightarrow> nat \<Rightarrow> 'a list \<Rightarrow> 'a list" where
  "slice a b xs = drop a (take b xs)"

fun le_uint :: "byte list \<Rightarrow> int" where
  "le_uint [] = 0"
| "le_uint (b # bs) = uint b + 256 * le_uint bs"

text \<open>\<^verbatim>\<open>struct.unpack("<I", buf)[0]\<close> and \<^verbatim>\<open>struct.unpack("<Q", buf)[0]\<close>.\<close>

definition unpack_I :: "byte list \<Rightarrow> error + int" where
  "unpack_I buf = (if length buf = 4 then Inr (le_uint buf) else Inl StructError)"

definition unpack_Q :: "byte list \<Rightarrow> error + int" where
  "unpack_Q buf = (if length buf = 8 then Inr (le_uint buf) else Inl StructError)"

section \<open>Formatting\<close>

definition digit_char :: "nat \<Rightarrow> char" where
  "digit_char d = char_of (48 + d)"

function dec_nat :: "nat \<Rightarrow> string" where
  "dec_nat n = (if n < 10 then [digit_char n] else dec_nat (n div 10) @ [digit_char (n mod 10)])"
  by pat_completeness auto
termination
  by (relation "measure (\<lambda>n. n)") auto

declare dec_nat.simps [simp del]

text \<open>\<^verbatim>\<open>"%d" % i\<close>\<close>

definition fmt_d :: "int \<Rightarrow> string" where
  "fmt_d i = (if i < 0 then CHR ''-'' # dec_nat (nat (- i)) else dec_nat (nat i))"

text \<open>\<^verbatim>\<open>"%0wd" % i\<close>: zeros between the sign and the digits up to width \<open>w\<close>.\<close>

definition fmt_0d :: "nat \<Rightarrow> int \<Rightarrow> string" where
  "fmt_0d w i =
     (if i < 0
      then (let s = dec_nat (nat (- i)) in CHR ''-'' # replicate (w - 1 - length s) CHR ''0'' @ s)
      else (let s = dec_nat (nat i) in replicate (w - length s) CHR ''0'' @ s))"

text \<open>\<^verbatim>\<open>s.split(c)[0]\<close> for a separator of one character: the text before its first occurrence.\<close>

definition split_first :: "char \<Rightarrow> string \<Rightarrow> string" where
  "split_first c s = takeWhile (\<lambda>x. x \<noteq> c) s"

text \<open>
  \<^verbatim>\<open>str(timedelta(milliseconds=ms))\<close> for an integer \<open>ms\<close>: the constructor normalises
  exactly to days, seconds below 86400 and microseconds below \<open>10\<^sup>6\<close>, and \<^verbatim>\<open>__str__\<close>
  prints \<^verbatim>\<open>[D day[s], ]H:MM:SS[.UUUUUU]\<close>.
\<close>

definition timedelta_str :: "int \<Rightarrow> string" where
  "timedelta_str ms =
     (let days = ms div 86400000;
          r = ms mod 86400000;
          seconds = r div 1000;
          microseconds = (r mod 1000) * 1000;
          mm = seconds div 60;
          ss = seconds mod 60;
          hh = mm div 60;
          mm = mm mod 60;
          s = fmt_d hh @ '':'' @ fmt_0d 2 mm @ '':'' @ fmt_0d 2 ss;
          s = (if days \<noteq> 0
               then fmt_d days @ '' day'' @ (if \<bar>days\<bar> \<noteq> 1 then ''s'' else '''') @ '', '' @ s
               else s);
          s = (if microseconds \<noteq> 0 then s @ ''.'' @ fmt_0d 6 microseconds else s)
      in s)"

section \<open>Double precision\<close>

text \<open>
  A finite double is the rational it denotes. \<open>round_half_even\<close> is Python's \<^verbatim>\<open>round\<close> to an
  integer; \<open>ilog2 x\<close> is the binary exponent \<open>\<lfloor>log\<^sub>2 \<bar>x\<bar>\<rfloor>\<close>; \<open>fl\<close> rounds a rational to the
  nearest number with a 53-bit significand, ties to even, which is what IEEE 754 binary64
  division and multiplication return in the normal range (all quotients and products below
  lie between \<open>2\<^sup>-\<^sup>5\<^sup>3\<close> and \<open>2\<^sup>6\<^sup>4\<close> in magnitude, or are zero).
\<close>

definition round_half_even :: "rat \<Rightarrow> int" where
  "round_half_even x =
     (let f = \<lfloor>x\<rfloor>; d = x - of_int f
      in if d < 1 / 2 then f else if 1 / 2 < d then f + 1 else if even f then f else f + 1)"

definition ilog2 :: "rat \<Rightarrow> int" where
  "ilog2 x =
     (case quotient_of \<bar>x\<bar> of (p, q) \<Rightarrow>
        (let k = bitlen p - bitlen q in if 2 powi k \<le> \<bar>x\<bar> then k else k - 1))"

definition fl :: "rat \<Rightarrow> rat" where
  "fl x = (if x = 0 then 0
           else (let e = ilog2 x - 52 in of_int (round_half_even (x / 2 powi e)) * 2 powi e))"

text \<open>\<^verbatim>\<open>a / b\<close> on Python integers, \<open>b \<noteq> 0\<close>: the correctly rounded quotient.\<close>

definition true_divide :: "int \<Rightarrow> int \<Rightarrow> rat" where
  "true_divide a b = fl (of_int a / of_int b)"

section \<open>\<^verbatim>\<open>datetime.utcfromtimestamp\<close> and \<^verbatim>\<open>strftime\<close>\<close>

text \<open>
  The timestamp is split by \<^verbatim>\<open>modf\<close> into its integral part (towards zero) and its
  fraction; the fraction times \<open>10\<^sup>6\<close> is rounded half-even to microseconds, and a carry or a
  borrow moves the integral part by one.
\<close>

definition trunc_rat :: "rat \<Rightarrow> int" where
  "trunc_rat x = (if 0 \<le> x then \<lfloor>x\<rfloor> else \<lceil>x\<rceil>)"

definition timestamp_split :: "rat \<Rightarrow> int \<times> int" where
  "timestamp_split t =
     (let intpart = trunc_rat t;
          frac = t - of_int intpart;
          us = round_half_even (fl (frac * 1000000))
      in if us \<ge> 1000000 then (intpart + 1, us - 1000000)
         else if us < 0 then (intpart - 1, us + 1000000)
         else (intpart, us))"

record datetime =
  year :: int
  month :: int
  day :: int
  hour :: int
  minute :: int
  second :: int
  microsecond :: int

definition DAYS_IN_MONTH :: "int list" where
  "DAYS_IN_MONTH = [-1, 31, 28, 31, 30, 31, 30, 31, 31, 30, 31, 30, 31]"

definition DAYS_BEFORE_MONTH :: "int list" where
  "DAYS_BEFORE_MONTH = [-1, 0, 31, 59, 90, 120, 151, 181, 212, 243, 273, 304, 334]"

text \<open>
  The proleptic Gregorian date of an ordinal (day 1 is 0001-01-01), as the \<^verbatim>\<open>datetime\<close>
  module computes it (\<^verbatim>\<open>_ord2ymd\<close>): 400-, 100-, 4- and 1-year cycles, then the month
  from an estimate that is corrected when it is one too large.
\<close>

definition ord2ymd :: "int \<Rightarrow> int \<times> int \<times> int" where
  "ord2ymd ordinal =
     (let n = ordinal - 1;
          n400 = n div 146097; n = n mod 146097;
          n100 = n div 36524; n = n mod 36524;
          n4 = n div 1461; n = n mod 1461;
          n1 = n div 365; n = n mod 365;
          y = n400 * 400 + 1 + n100 * 100 + n4 * 4 + n1
      in if n1 = 4 \<or> n100 = 4 then (y - 1, 12, 31)
         else
          (let leapyear = (n1 = 3 \<and> (n4 \<noteq> 24 \<or> n100 = 3));
               m = (n + 50) div 32;
               preceding = DAYS_BEFORE_MONTH ! nat m + (if m > 2 \<and> leapyear then 1 else 0)
           in if preceding > n
              then (let m' = m - 1;
                        preceding' = preceding
                          - (DAYS_IN_MONTH ! nat m' + (if m' = 2 \<and> leapyear then 1 else 0))
                    in (y, m', n - preceding' + 1))
              else (y, m, n - preceding + 1)))"

text \<open>
  The calendar fields of a whole number of seconds since 1970-01-01 (ordinal 719163) in
  UTC; a year outside \<open>1..9999\<close> raises \<^verbatim>\<open>ValueError\<close>.
\<close>

definition datetime_of_seconds :: "int \<Rightarrow> int \<Rightarrow> error + datetime" where
  "datetime_of_seconds secs us =
     (let days = secs div 86400; r = secs mod 86400
      in case ord2ymd (days + 719163) of (y, m, d) \<Rightarrow>
           if y < 1 \<or> 9999 < y then Inl ValueError
           else Inr \<lparr> year = y, month = m, day = d,
                      hour = r div 3600, minute = (r mod 3600) div 60, second = r mod 60,
                      microsecond = us \<rparr>)"

text \<open>\<^verbatim>\<open>datetime.utcfromtimestamp(t)\<close>\<close>

definition utcfromtimestamp :: "rat \<Rightarrow> error + datetime" where
  "utcfromtimestamp t = (case timestamp_split t of (secs, us) \<Rightarrow> datetime_of_seconds secs us)"

text \<open>\<^verbatim>\<open>dt.strftime('%Y-%m-%d %H:%M:%S (UTC)')\<close>\<close>

definition strftime :: "datetime \<Rightarrow> string" where
  "strftime dt =
     fmt_0d 4 (year dt) @ ''-'' @ fmt_0d 2 (month dt) @ ''-'' @ fmt_0d 2 (day dt) @ '' ''
     @ fmt_0d 2 (hour dt) @ '':'' @ fmt_0d 2 (minute dt) @ '':'' @ fmt_0d 2 (second dt)
     @ '' (UTC)''"

section \<open>\<^verbatim>\<open>convert_filetime\<close>\<close>

definition EPOCH_AS_FILETIME :: int where
  "EPOCH_AS_FILETIME = 116444736000000000"

definition HUNDREDS_OF_NANOSECONDS :: int where
  "HUNDREDS_OF_NANOSECONDS = 10000000"

definition convert_filetime :: "int \<Rightarrow> error + string" where
  "convert_filetime ft =
     bind_err (utcfromtimestamp (true_divide (ft - EPOCH_AS_FILETIME) HUNDREDS_OF_NANOSECONDS))
       (\<lambda>dt. Inr (strftime dt))"

section \<open>\<^verbatim>\<open>raw_data_parser\<close>\<close>

text \<open>
  The result is the list \<^verbatim>\<open>ua_data\<close>: empty for a payload of any length other than 16 or
  72, otherwise run count, focus count, focus time and last execution time; an absent
  field is the empty string.
\<close>

definition raw_data_parser :: "byte list \<Rightarrow> error + pyval list" where
  "raw_data_parser data =
     (if length data = 16 then
        bind_err (unpack_I (slice 4 8 data)) (\<lambda>run_count.
        let run_count = run_count - 5;
            focus_count = PyStr '''';
            focus_time = PyStr ''''
        in bind_err (unpack_Q (drop 8 data)) (\<lambda>ft.
           bind_err (if ft = 0 then Inr '''' else convert_filetime ft) (\<lambda>last_executed.
           Inr [PyInt run_count, focus_count, focus_time, PyStr last_executed])))
      else if length data = 72 then
        bind_err (unpack_I (slice 4 8 data)) (\<lambda>run_count.
        bind_err (unpack_I (slice 8 12 data)) (\<lambda>focus_count.
        bind_err (unpack_I (slice 12 16 data)) (\<lambda>ms.
        let focus_time = split_first CHR ''.'' (timedelta_str ms)
        in bind_err (unpack_Q (slice 60 68 data)) (\<lambda>ft.
           bind_err (if ft = 0 then Inr '''' else convert_filetime ft) (\<lambda>last_executed.
           Inr [PyInt run_count, PyInt focus_count, PyStr focus_time, PyStr last_executed])))))
      else Inr [])"

section \<open>\<^verbatim>\<open>resolve_guid\<close>\<close>

text \<open>\<^verbatim>\<open>codecs.encode(s, 'rot-13')\<close>: the 26 letters of each case are rotated by 13 places.\<close>

definition rot13_char :: "char \<Rightarrow> char" where
  "rot13_char c =
     (let n = (of_char c :: nat)
      in if 65 \<le> n \<and> n \<le> 90 then char_of ((n - 65 + 13) mod 26 + 65)
         else if 97 \<le> n \<and> n \<le> 122 then char_of ((n - 97 + 13) mod 26 + 97)
         else c)"

definition rot13 :: "string \<Rightarrow> string" where
  "rot13 s = map rot13_char s"

text \<open>
  \<^verbatim>\<open>s.replace(old, new)\<close>: every occurrence of \<open>old\<close>, found from the left without
  overlap, is replaced; an empty \<open>old\<close> matches before every character and at the end.
\<close>

function str_replace :: "string \<Rightarrow> string \<Rightarrow> string \<Rightarrow> string" where
  "str_replace old new s =
     (if old = [] then (case s of [] \<Rightarrow> new | c # cs \<Rightarrow> new @ c # str_replace old new cs)
      else if s = [] then []
      else if take (length old) s = old then new @ str_replace old new (drop (length old) s)
      else hd s # str_replace old new (tl s))"
  by pat_completeness auto
termination
  by (relation "measure (\<lambda>(old, new, s). length s)") auto

declare str_replace.simps [simp del]

definition backslash :: char where
  "backslash = CHR 0x5C"

text \<open>
  \<^verbatim>\<open>folder_guids\<close> comes from \<^verbatim>\<open>lib/known_folders.py\<close>; it is a parameter here, the list
  of its items in iteration order.
\<close>

type_synonym folder_table = "(string \<times> string) list"

fun resolve_guid :: "folder_table \<Rightarrow> string \<Rightarrow> string" where
  "resolve_guid [] program = program"
| "resolve_guid ((key, val) # items) program =
     (if key = split_first backslash program then str_replace key val program
      else resolve_guid items program)"

section \<open>\<^verbatim>\<open>get_key\<close>\<close>

text \<open>
  What the hive library returns: a file is either rejected (no regf signature) or a hive
  with a type and, when present, the UserAssist key. Each subkey of that key has a name and,
  when it has a \<^verbatim>\<open>Count\<close> subkey, the list of its values (name and data).
\<close>

type_synonym reg_value = "string \<times> byte list"

type_synonym guid_key = "string \<times> reg_value list option"

datatype registry_file = NotRegf | Regf string "guid_key list option"

text \<open>The lines printed on standard output.\<close>

datatype message =
    KeyNotFound         \<comment> \<open>\<^verbatim>\<open>[x] UserAssist key not found\<close>\<close>
  | FoundKey            \<comment> \<open>\<^verbatim>\<open>[+] Found ...\<close>\<close>
  | FoundGuid string    \<comment> \<open>\<^verbatim>\<open>[+] Found GUID with values: ...\<close>\<close>
  | ParsingValues       \<comment> \<open>\<^verbatim>\<open>[+] Parsing values...\<close>\<close>
  | NotNtuser           \<comment> \<open>\<^verbatim>\<open>... is not an NTUSER.DAT file\<close>\<close>
  | OutputWritten       \<comment> \<open>\<^verbatim>\<open>[+] Output written to ...\<close>\<close>
  | InvalidFilePath     \<comment> \<open>\<^verbatim>\<open>Invalid file path: ...\<close>\<close>

text \<open>Each \<^verbatim>\<open>pd_dict\<close> has one item: the program and its parsed data.\<close>

type_synonym pd_dict = "string \<times> pyval list"

text \<open>The loop over the values of one \<^verbatim>\<open>Count\<close> key.\<close>

fun parse_values :: "folder_table \<Rightarrow> reg_value list \<Rightarrow> error + pd_dict list" where
  "parse_values tbl [] = Inr []"
| "parse_values tbl ((name, data) # vs) =
     (let program = resolve_guid tbl (rot13 name)
      in bind_err (raw_data_parser data) (\<lambda>parsed_data.
         bind_err (parse_values tbl vs) (\<lambda>rest. Inr ((program, parsed_data) # rest))))"

text \<open>The loop over the subkeys of the UserAssist key, with what it prints.\<close>

fun parse_guids :: "folder_table \<Rightarrow> guid_key list \<Rightarrow> message list \<times> (error + pd_dict list)" where
  "parse_guids tbl [] = ([], Inr [])"
| "parse_guids tbl ((gname, cnt) # gs) =
     (case cnt of
        None \<Rightarrow> ([], Inl RegistryKeyNotFoundException)
      | Some vals \<Rightarrow>
          if vals \<noteq> [] then
            (case parse_values tbl vals of
               Inl e \<Rightarrow> ([FoundGuid gname, ParsingValues], Inl e)
             | Inr rows \<Rightarrow>
                 (case parse_guids tbl gs of (msgs, r) \<Rightarrow>
                    (FoundGuid gname # ParsingValues # msgs,
                     bind_err r (\<lambda>rest. Inr (rows @ rest)))))
          else parse_guids tbl gs)"

text \<open>
  The result of \<^verbatim>\<open>get_key\<close> is \<^verbatim>\<open>pd_list\<close>, or \<^verbatim>\<open>None\<close> for a hive of another type
  (the function ends without a \<^verbatim>\<open>return\<close>).
\<close>

definition get_key :: "folder_table \<Rightarrow> registry_file \<Rightarrow> message list \<times> (error + pd_dict list option)" where
  "get_key tbl file =
     (case file of
        NotRegf \<Rightarrow> ([], Inl SystemExit)
      | Regf hive_type ua_key \<Rightarrow>
          if hive_type = ''ntuser.dat'' then
            (case ua_key of
               None \<Rightarrow> ([KeyNotFound], Inr (Some []))
             | Some guids \<Rightarrow>
                 (case parse_guids tbl guids of (msgs, r) \<Rightarrow>
                    (FoundKey # msgs, bind_err r (\<lambda>pd_list. Inr (Some pd_list)))))
          else ([NotNtuser], Inr None))"

section \<open>\<^verbatim>\<open>write_output\<close> and \<^verbatim>\<open>main\<close>\<close>

definition header :: "pyval list" where
  "header = [PyStr ''Program'', PyStr ''Run Count'', PyStr ''Focus Count'',
             PyStr ''Focus Time'', PyStr ''Last Executed'']"

text \<open>
  The rows written after the header, and the exception that ends the loop early if there
  is one: a non-empty \<^verbatim>\<open>val\<close> shorter than four raises \<^verbatim>\<open>IndexError\<close>.
\<close>

fun write_rows :: "pd_dict list \<Rightarrow> pyval list list \<times> error option" where
  "write_rows [] = ([], None)"
| "write_rows ((key, val) # rest) =
     (if val = [] then write_rows rest
      else if length val < 4 then ([], Some IndexError)
      else (case write_rows rest of (rows, e) \<Rightarrow>
              ([PyStr key, val ! 0, val ! 1, val ! 2, val ! 3] # rows, e)))"

text \<open>
  \<^verbatim>\<open>write_output\<close> opens the file and writes the header before it looks at \<^verbatim>\<open>ua_list\<close>;
  iterating over \<^verbatim>\<open>None\<close> raises \<^verbatim>\<open>TypeError\<close>. The result is the rows of the file and
  the exception, if any.
\<close>

definition write_output :: "pd_dict list option \<Rightarrow> pyval list list \<times> error option" where
  "write_output ua_list =
     (case ua_list of
        None \<Rightarrow> ([header], Some TypeError)
      | Some l \<Rightarrow> (case write_rows l of (rows, e) \<Rightarrow> (header # rows, e)))"

text \<open>
  A run: what was printed, the rows of \<^verbatim>\<open>UserAssist.csv\<close> if the file was created, and
  the exception that ended the run, if any. The argument is \<open>None\<close> when the path given
  on the command line is not a file.
\<close>

record run =
  stdout :: "message list"
  csv_file :: "pyval list list option"
  raised :: "error option"

definition main :: "folder_table \<Rightarrow> registry_file option \<Rightarrow> run" where
  "main tbl ntuser =
     (case ntuser of
        None \<Rightarrow> \<lparr> stdout = [InvalidFilePath], csv_file = None, raised = None \<rparr>
      | Some file \<Rightarrow>
          (case get_key tbl file of
             (msgs, Inl e) \<Rightarrow> \<lparr> stdout = msgs, csv_file = None, raised = Some e \<rparr>
           | (msgs, Inr ua_dict) \<Rightarrow>
               (case write_output ua_dict of
                  (rows, None) \<Rightarrow>
                    \<lparr> stdout = msgs @ [OutputWritten], csv_file = Some rows, raised = None \<rparr>
                | (rows, Some e) \<Rightarrow>
                    \<lparr> stdout = msgs, csv_file = Some rows, raised = Some e \<rparr>)))"

section \<open>The field readers of the specification\<close>

text \<open>
  The little-endian unsigned 32-bit and 64-bit integers at \<^verbatim>\<open>bytes[i:i+4]\<close> and
  \<^verbatim>\<open>bytes[i:i+8]\<close>, written out byte by byte as the specification words them; they are
  compared below with what \<^verbatim>\<open>struct.unpack\<close> returns on the slices of the source.
\<close>

definition u32_le :: "byte list \<Rightarrow> nat \<Rightarrow> int" where
  "u32_le bytes i =
     uint (bytes ! i) + 2 ^ 8 * uint (bytes ! (i + 1)) + 2 ^ 16 * uint (bytes ! (i + 2))
     + 2 ^ 24 * uint (bytes ! (i + 3))"

definition u64_le :: "byte list \<Rightarrow> nat \<Rightarrow> int" where
  "u64_le bytes i =
     uint (bytes ! i) + 2 ^ 8 * uint (bytes ! (i + 1)) + 2 ^ 16 * uint (bytes ! (i + 2))
     + 2 ^ 24 * uint (bytes ! (i + 3)) + 2 ^ 32 * uint (bytes ! (i + 4))
     + 2 ^ 40 * uint (bytes ! (i + 5)) + 2 ^ 48 * uint (bytes ! (i + 6))
     + 2 ^ 56 * uint (bytes ! (i + 7))"

section \<open>The texts of the specification\<close>

text \<open>
  \<^verbatim>\<open>H:MM:SS\<close> of a whole number of seconds, as the specification words the focus time:
  hours without padding, minutes and seconds on two digits.
\<close>

definition hmmss :: "int \<Rightarrow> string" where
  "hmmss secs =
     fmt_d (secs div 3600) @ '':'' @ fmt_0d 2 (secs div 60 mod 60) @ '':'' @ fmt_0d 2 (secs mod 60)"

text \<open>
  What the source returns for a focus time of \<open>ms\<close> milliseconds: \<^verbatim>\<open>H:MM:SS\<close> of the whole
  seconds below one day, and from one day on the number of days, \<^verbatim>\<open>day\<close> or \<^verbatim>\<open>days\<close>, and
  \<^verbatim>\<open>H:MM:SS\<close> of the rest.
\<close>

definition focus_time_text :: "int \<Rightarrow> string" where
  "focus_time_text ms =
     (if ms < 86400000 then hmmss (ms div 1000)
      else fmt_d (ms div 86400000) @ '' day'' @ (if ms div 86400000 = 1 then '''' else ''s'')
           @ '', '' @ hmmss (ms mod 86400000 div 1000))"

text \<open>
  \<open>occurs_in old s\<close>: the text \<open>old\<close> occurs somewhere in \<open>s\<close>.
\<close>

fun occurs_in :: "string \<Rightarrow> string \<Rightarrow> bool" where
  "occurs_in old [] = (old = [])"
| "occurs_in old (c # cs) = (take (length old) (c # cs) = old \<or> occurs_in old cs)"

text \<open>
  The letters that the 13-place rotation moves: \<^verbatim>\<open>A\<close> to \<^verbatim>\<open>Z\<close> and \<^verbatim>\<open>a\<close> to \<^verbatim>\<open>z\<close>.
\<close>

definition ascii_letter :: "char \<Rightarrow> bool" where
  "ascii_letter c =
     (let n = (of_char c :: nat) in 65 \<le> n \<and> n \<le> 90 \<or> 97 \<le> n \<and> n \<le> 122)"

section \<open>Whole seconds\<close>

text \<open>
  The calendar text of a whole number of seconds since 1970-01-01, as the specification
  words the result of the conversion.
\<close>

definition calendar_string :: "int \<Rightarrow> error + string" where
  "calendar_string secs = bind_err (datetime_of_seconds secs 0) (\<lambda>dt. Inr (strftime dt))"

text \<open>
  The whole second that \<^verbatim>\<open>convert_filetime\<close> formats for a filetime, and the microseconds
  that \<^verbatim>\<open>utcfromtimestamp\<close> computes from a fraction.
\<close>

definition utc_seconds :: "int \<Rightarrow> int" where
  "utc_seconds ft =
     fst (timestamp_split (true_divide (ft - EPOCH_AS_FILETIME) HUNDREDS_OF_NANOSECONDS))"

definition us_of :: "rat \<Rightarrow> int" where
  "us_of f = round_half_even (fl (f * 1000000))"

section \<open>Notions for the order of dates\<close>

text \<open>
  The decimal digits of a number on a fixed width, the leap years and day counts of the
  proleptic Gregorian calendar (as \<^verbatim>\<open>_is_leap\<close>, \<^verbatim>\<open>_days_before_year\<close>,
  \<^verbatim>\<open>_days_in_month\<close>, \<^verbatim>\<open>_days_before_month\<close> and \<^verbatim>\<open>_ymd2ord\<close> of the \<^verbatim>\<open>datetime\<close>
  module), and the month and day that \<open>ord2ymd\<close> computes from the day of the year.
\<close>

fun digits :: "nat \<Rightarrow> nat \<Rightarrow> string" where
  "digits 0 n = []"
| "digits (Suc k) n = digits k (n div 10) @ [digit_char (n mod 10)]"

definition is_leap :: "int \<Rightarrow> bool" where
  "is_leap y = (y mod 4 = 0 \<and> (y mod 100 \<noteq> 0 \<or> y mod 400 = 0))"

definition days_before_year :: "int \<Rightarrow> int" where
  "days_before_year y = (y - 1) * 365 + (y - 1) div 4 - (y - 1) div 100 + (y - 1) div 400"

definition days_in_month :: "int \<Rightarrow> int \<Rightarrow> int" where
  "days_in_month y m = (if m = 2 \<and> is_leap y then 29 else DAYS_IN_MONTH ! nat m)"

definition days_before_month :: "int \<Rightarrow> int \<Rightarrow> int" where
  "days_before_month y m = DAYS_BEFORE_MONTH ! nat m + (if m > 2 \<and> is_leap y then 1 else 0)"

definition ymd2ord :: "int \<Rightarrow> int \<Rightarrow> int \<Rightarrow> int" where
  "ymd2ord y m d = days_before_year y + days_before_month y m + d"

definition month_day :: "bool \<Rightarrow> int \<Rightarrow> int \<times> int" where
  "month_day leapyear n =
     (let m = (n + 50) div 32;
          preceding = DAYS_BEFORE_MONTH ! nat m + (if m > 2 \<and> leapyear then 1 else 0)
      in if preceding > n
         then (let m' = m - 1;
                   preceding' = preceding
                     - (DAYS_IN_MONTH ! nat m' + (if m' = 2 \<and> leapyear then 1 else 0))
               in (m', n - preceding' + 1))
         else (m, n - preceding + 1))"

section \<open>Slices and the two layouts\<close>

lemma bind_err_simps [simp]:
  "bind_err (Inl e) f = Inl e"
  "bind_err (Inr x) f = f x"
  by (simp_all add: bind_err_def)

lemma slice_Cons: "a < b \<Longrightarrow> a < length xs \<Longrightarrow> slice a b xs = xs ! a # slice (Suc a) b xs"
proof -
  assume h: "a < b" "a < length xs"
  then have "a < length (take b xs)" by simp
  then have "drop a (take b xs) = take b xs ! a # drop (Suc a) (take b xs)"
    by (rule Cons_nth_drop_Suc [symmetric])
  moreover have "take b xs ! a = xs ! a" using h by simp
  ultimately have "drop a (take b xs) = xs ! a # drop (Suc a) (take b xs)"
    by (rule trans [OF _ arg_cong2 [where f = Cons]]) (rule refl)
  then show ?thesis unfolding slice_def .
qed

lemma slice_Nil: "b \<le> a \<Longrightarrow> slice a b xs = []"
  by (simp add: slice_def)

lemma slice_4:
  "i + 4 \<le> length xs \<Longrightarrow> slice i (i + 4) xs = [xs ! i, xs ! (i + 1), xs ! (i + 2), xs ! (i + 3)]"
  by (simp add: slice_Cons slice_Nil numeral_eq_Suc)

lemma slice_8:
  "i + 8 \<le> length xs \<Longrightarrow>
     slice i (i + 8) xs = [xs ! i, xs ! (i + 1), xs ! (i + 2), xs ! (i + 3),
                           xs ! (i + 4), xs ! (i + 5), xs ! (i + 6), xs ! (i + 7)]"
  by (simp add: slice_Cons slice_Nil numeral_eq_Suc)

lemma length_slice: "length (slice a b xs) = min b (length xs) - a"
  by (simp add: slice_def)

lemma drop_eq_slice: "length xs = n \<Longrightarrow> drop a xs = slice a n xs"
  by (simp add: slice_def)

lemma slice_of_slice:
  "slice a b xs = slice a b ys \<Longrightarrow> a \<le> c \<Longrightarrow> d \<le> b \<Longrightarrow> slice c d xs = slice c d ys"
proof -
  assume h: "slice a b xs = slice a b ys" "a \<le> c" "d \<le> b"
  have "slice c d zs = drop (c - a) (take (d - a) (slice a b zs))" for zs :: "'a list"
    using h(2,3) by (cases "a \<le> d") (auto simp: slice_def take_drop min_def)
  then show ?thesis using h(1) by simp
qed

lemma le_uint_slice_4: "i + 4 \<le> length xs \<Longrightarrow> le_uint (slice i (i + 4) xs) = u32_le xs i"
  by (simp add: slice_4 u32_le_def)

lemma le_uint_slice_8: "i + 8 \<le> length xs \<Longrightarrow> le_uint (slice i (i + 8) xs) = u64_le xs i"
  by (simp add: slice_8 u64_le_def)

text \<open>No \<^verbatim>\<open>struct.unpack\<close> of the source can fail: each slice has the size of its format.\<close>

lemma raw16_eq:
  assumes "length data = 16"
  shows "raw_data_parser data =
     bind_err (if le_uint (slice 8 16 data) = 0 then Inr ''''
               else convert_filetime (le_uint (slice 8 16 data)))
       (\<lambda>last_executed.
          Inr [PyInt (le_uint (slice 4 8 data) - 5), PyStr '''', PyStr '''', PyStr last_executed])"
  using assms
  by (simp add: raw_data_parser_def unpack_I_def unpack_Q_def length_slice drop_eq_slice Let_def)

lemma raw72_eq:
  assumes "length data = 72"
  shows "raw_data_parser data =
     bind_err (if le_uint (slice 60 68 data) = 0 then Inr ''''
               else convert_filetime (le_uint (slice 60 68 data)))
       (\<lambda>last_executed.
          Inr [PyInt (le_uint (slice 4 8 data)), PyInt (le_uint (slice 8 12 data)),
               PyStr (split_first CHR ''.'' (timedelta_str (le_uint (slice 12 16 data)))),
               PyStr last_executed])"
  using assms
  by (simp add: raw_data_parser_def unpack_I_def unpack_Q_def length_slice Let_def)

lemma raw16_spec:
  assumes "length data = 16"
  shows "raw_data_parser data =
     bind_err (if u64_le data 8 = 0 then Inr '''' else convert_filetime (u64_le data 8))
       (\<lambda>last_executed.
          Inr [PyInt (u32_le data 4 - 5), PyStr '''', PyStr '''', PyStr last_executed])"
  using assms le_uint_slice_4 [of 4 data] le_uint_slice_8 [of 8 data]
  by (simp add: raw16_eq)

lemma raw_data_parser_other:
  "length data \<noteq> 16 \<Longrightarrow> length data \<noteq> 72 \<Longrightarrow> raw_data_parser data = Inr []"
  by (simp add: raw_data_parser_def)

lemma write_rows_skip: "write_rows (xs @ (p, []) # ys) = write_rows (xs @ ys)"
  by (induction xs) (auto split: prod.splits)

section \<open>Payloads of another length\<close>

text \<open>
  Claim C3. A payload whose length is neither 16 nor 72 decodes to the empty list (no
  field at all); the loop of \<^verbatim>\<open>get_key\<close> still resolves the name of its value and keeps the
  pair of that name and the empty list; and \<^verbatim>\<open>write_output\<close> writes no row for it, wherever
  it stands in the list.
\<close>

theorem unrecognized_length_suppressed:
  "length data \<noteq> 16 \<and> length data \<noteq> 72 \<longrightarrow>
     raw_data_parser data = Inr []
     \<and> parse_values tbl [(name, data)] = Inr [(resolve_guid tbl (rot13 name), [])]
     \<and> write_rows (before @ (resolve_guid tbl (rot13 name), []) # after)
         = write_rows (before @ after)"
  by (simp add: raw_data_parser_other write_rows_skip)

theorem unrecognized_length_suppressed_witness:
  "length (replicate 8 (0 :: byte)) \<noteq> 16 \<and> length (replicate 8 (0 :: byte)) \<noteq> 72
   \<and> raw_data_parser (replicate 8 0) = Inr []
   \<and> parse_values [] [(''nop'', replicate 8 0)] = Inr [(''abc'', [])]
   \<and> write_rows ([] @ (''abc'', []) # []) = write_rows ([] @ [])"
proof -
  have r: "rot13 ''nop'' = ''abc''"
    by code_simp
  show ?thesis
    using unrecognized_length_suppressed [of "replicate 8 0" "[]" "''nop''" "[]" "[]"]
    by (simp add: r)
qed

section \<open>The bytes a decoded record depends on\<close>

text \<open>
  Claim C10. Two payloads of 16 bytes that agree on \<^verbatim>\<open>bytes[4:16]\<close> have the same outcome
  of \<^verbatim>\<open>raw_data_parser\<close> (the same list, or the same exception), and so have two payloads
  of 72 bytes that agree on \<^verbatim>\<open>bytes[4:16]\<close> and on \<^verbatim>\<open>bytes[60:68]\<close>: no other byte is read.
\<close>

theorem decode_depends_on_windows:
  "(length a = 16 \<and> length b = 16 \<and> slice 4 16 a = slice 4 16 b
      \<longrightarrow> raw_data_parser a = raw_data_parser b)
   \<and> (length a = 72 \<and> length b = 72 \<and> slice 4 16 a = slice 4 16 b
        \<and> slice 60 68 a = slice 60 68 b
      \<longrightarrow> raw_data_parser a = raw_data_parser b)"
proof (intro conjI impI)
  assume h: "length a = 16 \<and> length b = 16 \<and> slice 4 16 a = slice 4 16 b"
  then have "slice 4 8 a = slice 4 8 b" "slice 8 16 a = slice 8 16 b"
    by (auto intro: slice_of_slice [of 4 16])
  with h show "raw_data_parser a = raw_data_parser b"
    by (simp add: raw16_eq)
next
  assume h: "length a = 72 \<and> length b = 72 \<and> slice 4 16 a = slice 4 16 b
               \<and> slice 60 68 a = slice 60 68 b"
  then have "slice 4 8 a = slice 4 8 b" "slice 8 12 a = slice 8 12 b"
    "slice 12 16 a = slice 12 16 b"
    by (auto intro: slice_of_slice [of 4 16])
  with h show "raw_data_parser a = raw_data_parser b"
    by (simp add: raw72_eq)
qed

theorem decode_depends_on_windows_witness:
  "(let w = [7, 0, 0, 0, 0, 0x80, 0x3E, 0xD5, 0xDE, 0xB1, 0x9D, 0x01 :: byte];
        a = replicate 4 0 @ w; b = replicate 4 255 @ w
    in length a = 16 \<and> length b = 16 \<and> slice 4 16 a = slice 4 16 b \<and> a \<noteq> b
       \<and> raw_data_parser a = raw_data_parser b)
   \<and> (let w = [7, 0, 0, 0, 3, 0, 0, 0, 0x10, 0x27, 0, 0 :: byte];
          t = [0, 0x80, 0x3E, 0xD5, 0xDE, 0xB1, 0x9D, 0x01 :: byte];
          a = replicate 4 0 @ w @ replicate 44 0 @ t @ replicate 4 0;
          b = replicate 4 255 @ w @ replicate 44 255 @ t @ replicate 4 255
      in length a = 72 \<and> length b = 72 \<and> slice 4 16 a = slice 4 16 b
         \<and> slice 60 68 a = slice 60 68 b \<and> a \<noteq> b
         \<and> raw_data_parser a = raw_data_parser b)"
proof -
  let ?w = "[7, 0, 0, 0, 0, 0x80, 0x3E, 0xD5, 0xDE, 0xB1, 0x9D, 0x01 :: byte]"
  let ?a = "replicate 4 0 @ ?w" and ?b = "replicate 4 255 @ ?w"
  let ?v = "[7, 0, 0, 0, 3, 0, 0, 0, 0x10, 0x27, 0, 0 :: byte]"
  let ?t = "[0, 0x80, 0x3E, 0xD5, 0xDE, 0xB1, 0x9D, 0x01 :: byte]"
  let ?c = "replicate 4 0 @ ?v @ replicate 44 0 @ ?t @ replicate 4 0"
  let ?d = "replicate 4 255 @ ?v @ replicate 44 255 @ ?t @ replicate 4 255"
  have h1: "length ?a = 16 \<and> length ?b = 16 \<and> slice 4 16 ?a = slice 4 16 ?b"
    by (simp add: slice_def)
  have h2: "length ?c = 72 \<and> length ?d = 72 \<and> slice 4 16 ?c = slice 4 16 ?d
              \<and> slice 60 68 ?c = slice 60 68 ?d"
    by (simp add: slice_def)
  have n1: "?a \<noteq> ?b" and n2: "?c \<noteq> ?d"
    by code_simp+
  from decode_depends_on_windows [of ?a ?b] h1
  have r1: "raw_data_parser ?a = raw_data_parser ?b" by blast
  from decode_depends_on_windows [of ?c ?d] h2
  have r2: "raw_data_parser ?c = raw_data_parser ?d" by blast
  show ?thesis
    unfolding Let_def using h1 h2 n1 n2 r1 r2 by blast
qed

section \<open>A hive without the UserAssist key\<close>

text \<open>
  Claim C7 (as amended). When the hive is an \<^verbatim>\<open>ntuser.dat\<close> hive without the UserAssist
  key, the run prints that the key was not found and raises nothing, and \<^verbatim>\<open>get_key\<close>
  returns the empty list, so \<^verbatim>\<open>write_output\<close> still creates \<^verbatim>\<open>UserAssist.csv\<close>: the file
  holds the header row alone.
\<close>

theorem subtree_absent_run:
  "main tbl (Some (Regf ''ntuser.dat'' None))
     = \<lparr> stdout = [KeyNotFound, OutputWritten], csv_file = Some [header], raised = None \<rparr>"
  by (simp add: main_def get_key_def write_output_def)

text \<open>The claim as stated, that no output file is produced, fails: the file is written.\<close>

theorem subtree_absent_counterexample:
  "csv_file (main [] (Some (Regf ''ntuser.dat'' None))) \<noteq> None"
  by (simp add: main_def get_key_def write_output_def)

section \<open>The layout of 72 bytes and the focus time\<close>

lemma raw72_spec:
  assumes "length data = 72"
  shows "raw_data_parser data =
     bind_err (if u64_le data 60 = 0 then Inr '''' else convert_filetime (u64_le data 60))
       (\<lambda>last_executed.
          Inr [PyInt (u32_le data 4), PyInt (u32_le data 8),
               PyStr (split_first CHR ''.'' (timedelta_str (u32_le data 12))),
               PyStr last_executed])"
  using assms le_uint_slice_4 [of 4 data] le_uint_slice_4 [of 8 data] le_uint_slice_4 [of 12 data]
    le_uint_slice_8 [of 60 data]
  by (simp add: raw72_eq)

lemma digit_char_not_dot: "d < 10 \<Longrightarrow> digit_char d \<noteq> CHR ''.''"
proof
  assume d: "d < 10" and "digit_char d = CHR ''.''"
  then have "of_char (char_of (48 + d)) = (of_char CHR ''.'' :: nat)"
    by (simp add: digit_char_def)
  with d show False by simp
qed

lemma dot_notin_dec_nat: "CHR ''.'' \<notin> set (dec_nat n)"
proof (induction n rule: dec_nat.induct)
  case (1 n)
  show ?case
  proof (cases "n < 10")
    case True
    then show ?thesis using digit_char_not_dot [of n] by (simp add: dec_nat.simps [of n])
  next
    case False
    then show ?thesis
      using 1 digit_char_not_dot [of "n mod 10"] by (simp add: dec_nat.simps [of n])
  qed
qed

lemma dot_notin_fmt: "CHR ''.'' \<notin> set (fmt_d i)" "CHR ''.'' \<notin> set (fmt_0d w i)"
  by (auto simp: fmt_d_def fmt_0d_def Let_def dot_notin_dec_nat)

lemma split_first_no: "c \<notin> set xs \<Longrightarrow> split_first c xs = xs"
  by (auto simp: split_first_def)

lemma split_first_append: "c \<notin> set xs \<Longrightarrow> split_first c (xs @ c # ys) = xs"
  by (auto simp: split_first_def takeWhile_append)

lemma dot_notin_hmmss: "CHR ''.'' \<notin> set (hmmss s)"
  by (simp add: hmmss_def dot_notin_fmt)

lemma timedelta_str_eq:
  assumes "0 \<le> ms"
  shows "timedelta_str ms =
     focus_time_text ms
     @ (if ms mod 1000 \<noteq> 0 then ''.'' @ fmt_0d 6 (ms mod 1000 * 1000) else '''')"
proof -
  have m: "ms mod 86400000 mod 1000 = ms mod 1000"
    by (simp add: mod_mod_cancel)
  have d: "x div 60 div 60 = x div 3600" for x :: int
    by (simp add: div_mult2_eq [symmetric])
  show ?thesis
  proof (cases "ms < 86400000")
    case True
    with assms have "ms div 86400000 = 0" "ms mod 86400000 = ms" by simp_all
    with True show ?thesis
      by (simp add: timedelta_str_def focus_time_text_def hmmss_def Let_def d)
  next
    case False
    then have "1 \<le> ms div 86400000" by simp
    with False show ?thesis 
      by (simp add: timedelta_str_def focus_time_text_def hmmss_def Let_def d m)
  qed
qed

lemma dot_notin_focus: "CHR ''.'' \<notin> set (focus_time_text ms)"
  by (simp add: focus_time_text_def dot_notin_hmmss dot_notin_fmt)

lemma focus_time_eq:
  assumes "0 \<le> ms"
  shows "split_first CHR ''.'' (timedelta_str ms) = focus_time_text ms"
  by (simp add: timedelta_str_eq [OF assms] split_first_no split_first_append dot_notin_focus)

lemma u32_le_nonneg: "0 \<le> u32_le data i"
  by (simp add: u32_le_def)

section \<open>Substitution of known folders\<close>

lemma resolve_guid_no_key:
  "split_first backslash p \<notin> fst ` set tbl \<Longrightarrow> resolve_guid tbl p = p"
  by (induction tbl) auto

lemma resolve_guid_map_of:
  "map_of tbl (split_first backslash p) = Some v \<Longrightarrow>
     resolve_guid tbl p = str_replace (split_first backslash p) v p"
  by (induction tbl) (auto split: if_splits)

lemma take_split_first: "take (length (split_first c s)) s = split_first c s"
  unfolding split_first_def by (induction s) auto

lemma str_replace_leading:
  "old \<noteq> [] \<Longrightarrow> take (length old) s = old \<Longrightarrow>
     str_replace old new s = new @ str_replace old new (drop (length old) s)"
  by (subst str_replace.simps) auto

lemma str_replace_absent:
  "old \<noteq> [] \<Longrightarrow> \<not> occurs_in old s \<Longrightarrow> str_replace old new s = s"
proof (induction s)
  case Nil
  then show ?case by (simp add: str_replace.simps)
next
  case (Cons c cs)
  then show ?case by (subst str_replace.simps) simp
qed

text \<open>
  Claim C5 (as amended). \<^verbatim>\<open>folder_guids\<close> is a parameter. After the 13-place rotation is
  undone, a name is changed only when its first path segment is a key of the table; a name
  whose first segment is no key is returned as it is. When the first segment is a key, the
  source calls \<^verbatim>\<open>program.replace(key, val)\<close>, which replaces every occurrence of the key in
  the name: the leading one, and any later one too. Only when the key does not occur again
  after the leading segment is the result the mapped value followed by the rest of the name.
\<close>

theorem resolver_substitution:
  "(split_first backslash (rot13 name) \<notin> fst ` set tbl \<longrightarrow>
      resolve_guid tbl (rot13 name) = rot13 name)
   \<and> (\<forall>key v. key = split_first backslash (rot13 name) \<and> map_of tbl key = Some v \<longrightarrow>
        resolve_guid tbl (rot13 name) = str_replace key v (rot13 name)
        \<and> (key \<noteq> [] \<longrightarrow>
             str_replace key v (rot13 name)
               = v @ str_replace key v (drop (length key) (rot13 name)))
        \<and> (key \<noteq> [] \<and> \<not> occurs_in key (drop (length key) (rot13 name)) \<longrightarrow>
             resolve_guid tbl (rot13 name) = v @ drop (length key) (rot13 name)))"
proof (intro conjI impI allI)
  assume "split_first backslash (rot13 name) \<notin> fst ` set tbl"
  then show "resolve_guid tbl (rot13 name) = rot13 name"
    by (rule resolve_guid_no_key)
next
  fix key v
  assume h: "key = split_first backslash (rot13 name) \<and> map_of tbl key = Some v"
  then have "map_of tbl (split_first backslash (rot13 name)) = Some v"
    by auto
  from resolve_guid_map_of [OF this] h
  show r: "resolve_guid tbl (rot13 name) = str_replace key v (rot13 name)"
    by simp
  have t: "take (length key) (rot13 name) = key"
    using h by (simp add: take_split_first)
  {
    assume "key \<noteq> []"
    then show "str_replace key v (rot13 name)
                 = v @ str_replace key v (drop (length key) (rot13 name))"
      using t by (rule str_replace_leading)
  }
  {
    assume "key \<noteq> [] \<and> \<not> occurs_in key (drop (length key) (rot13 name))"
    then show "resolve_guid tbl (rot13 name) = v @ drop (length key) (rot13 name)"
      using r t by (simp add: str_replace_leading str_replace_absent)
  }
qed

theorem resolver_substitution_witness:
  "(let tbl = [(''{A1}'', ''Docs'')]; name = ''nop''
    in split_first backslash (rot13 name) \<notin> fst ` set tbl
       \<and> resolve_guid tbl (rot13 name) = rot13 name \<and> rot13 name = ''abc'')
   \<and> (let tbl = [(''{A1}'', ''Docs'')]; name = ''{N1}'' @ [backslash] @ ''x''; key = ''{A1}''
      in key = split_first backslash (rot13 name) \<and> map_of tbl key = Some ''Docs''
         \<and> key \<noteq> [] \<and> \<not> occurs_in key (drop (length key) (rot13 name))
         \<and> resolve_guid tbl (rot13 name) = ''Docs'' @ drop (length key) (rot13 name)
         \<and> ''Docs'' @ drop (length key) (rot13 name) = ''Docs'' @ [backslash] @ ''k'')"
proof -
  let ?tbl = "[(''{A1}'', ''Docs'')]"
  let ?n = "''{N1}'' @ [backslash] @ ''x''"
  have a: "split_first backslash (rot13 ''nop'') \<notin> fst ` set ?tbl" "rot13 ''nop'' = ''abc''"
    by code_simp+
  have b: "''{A1}'' = split_first backslash (rot13 ?n) \<and> map_of ?tbl ''{A1}'' = Some ''Docs''"
    by code_simp
  have c: "''{A1}'' \<noteq> [] \<and> \<not> occurs_in ''{A1}'' (drop (length ''{A1}'') (rot13 ?n))"
    by code_simp
  have d: "''Docs'' @ drop (length ''{A1}'') (rot13 ?n) = ''Docs'' @ [backslash] @ ''k''"
    by code_simp
  from resolver_substitution [of "''nop''" ?tbl] a
  have r1: "resolve_guid ?tbl (rot13 ''nop'') = rot13 ''nop''" by blast
  from resolver_substitution [of ?n ?tbl] b c
  have r2: "resolve_guid ?tbl (rot13 ?n) = ''Docs'' @ drop (length ''{A1}'') (rot13 ?n)"
    by blast
  show ?thesis
    unfolding Let_def using a b c d r1 r2 by blast
qed

text \<open>
  The claim as stated, that an occurrence of the identifier elsewhere in the name is never
  substituted, fails: with the key \<^verbatim>\<open>{A1}\<close> mapped to \<^verbatim>\<open>Docs\<close>, the name that decodes to
  the three segments \<^verbatim>\<open>{A1}\<close>, \<^verbatim>\<open>k\<close>, \<^verbatim>\<open>{A1}\<close> resolves to the segments \<^verbatim>\<open>Docs\<close>,
  \<^verbatim>\<open>k\<close>, \<^verbatim>\<open>Docs\<close>: the last segment is replaced as well.
\<close>

theorem resolver_leading_only_counterexample:
  "(let tbl = [(''{A1}'', ''Docs'')];
        name = ''{N1}'' @ [backslash] @ ''x'' @ [backslash] @ ''{N1}''
    in rot13 name = ''{A1}'' @ [backslash] @ ''k'' @ [backslash] @ ''{A1}''
       \<and> resolve_guid tbl (rot13 name) = ''Docs'' @ [backslash] @ ''k'' @ [backslash] @ ''Docs''
       \<and> resolve_guid tbl (rot13 name) \<noteq> ''Docs'' @ [backslash] @ ''k'' @ [backslash] @ ''{A1}'')"
  by code_simp

lemma shift13: "k < 26 \<Longrightarrow> (k + 13) mod 26 \<noteq> (k::nat) \<and> (k + 13) mod 26 < 26"
proof (cases "k < 13")
  case True
  then show ?thesis by simp
next
  case False
  assume "k < 26"
  with False have "k + 13 = 26 + (k - 13)" by simp
  then have "(k + 13) mod 26 = (k - 13) mod 26" by (simp only: mod_add_self1)
  also have "\<dots> = k - 13" using \<open>k < 26\<close> by simp
  finally show ?thesis using False \<open>k < 26\<close> by auto
qed

lemma rot13_char_fixed: "rot13_char c = c \<longleftrightarrow> \<not> ascii_letter c"
proof -
  define n where "n = (of_char c :: nat)"
  have c: "c = char_of n" by (simp add: n_def)
  consider "65 \<le> n" "n \<le> 90" | "97 \<le> n" "n \<le> 122"
    | "\<not> (65 \<le> n \<and> n \<le> 90)" "\<not> (97 \<le> n \<and> n \<le> 122)" by blast
  then show ?thesis
  proof cases
    case 1
    then have "n - 65 < 26" by simp
    from shift13 [OF this] have m: "(n - 65 + 13) mod 26 \<noteq> n - 65" "(n - 65 + 13) mod 26 < 26"
      by simp_all
    have "of_char (rot13_char c) = ((n - 65 + 13) mod 26 + 65) mod 256"
      using 1 by (simp add: rot13_char_def n_def [symmetric] Let_def)
    also have "\<dots> = (n - 65 + 13) mod 26 + 65" using m(2) by simp
    also have "\<dots> \<noteq> n" using m(1) 1 by linarith
    finally have "rot13_char c \<noteq> c" unfolding n_def by auto
    moreover have "ascii_letter c" using 1 by (simp add: ascii_letter_def n_def [symmetric])
    ultimately show ?thesis by simp
  next
    case 2
    then have "n - 97 < 26" by simp
    from shift13 [OF this] have m: "(n - 97 + 13) mod 26 \<noteq> n - 97" "(n - 97 + 13) mod 26 < 26"
      by simp_all
    have "of_char (rot13_char c) = ((n - 97 + 13) mod 26 + 97) mod 256"
      using 2 by (simp add: rot13_char_def n_def [symmetric] Let_def)
    also have "\<dots> = (n - 97 + 13) mod 26 + 97" using m(2) by simp
    also have "\<dots> \<noteq> n" using m(1) 2 by linarith
    finally have "rot13_char c \<noteq> c" unfolding n_def by auto
    moreover have "ascii_letter c" using 2 by (simp add: ascii_letter_def n_def [symmetric])
    ultimately show ?thesis by simp
  next
    case 3
    then show ?thesis
      by (auto simp: rot13_char_def ascii_letter_def n_def [symmetric] Let_def)
  qed
qed

lemma rot13_fixed: "rot13 p = p \<longleftrightarrow> (\<forall>c \<in> set p. \<not> ascii_letter c)"
  by (induction p) (auto simp: rot13_def rot13_char_fixed)

text \<open>
  Claim C9 (as amended). The substitution step alone, \<^verbatim>\<open>resolve_guid\<close>, returns a path whose
  first segment is no key of the table unchanged. The resolver of \<^verbatim>\<open>get_key\<close> applies the
  13-place rotation first: on a plain path that holds no encoded identifier it returns the
  rotated path, and that is the path itself exactly when the path has no letter
  \<^verbatim>\<open>A\<close> to \<^verbatim>\<open>Z\<close> or \<^verbatim>\<open>a\<close> to \<^verbatim>\<open>z\<close>.
\<close>

theorem plain_path_resolution:
  "(split_first backslash p \<notin> fst ` set tbl \<longrightarrow> resolve_guid tbl p = p)
   \<and> (split_first backslash (rot13 p) \<notin> fst ` set tbl \<longrightarrow>
        resolve_guid tbl (rot13 p) = rot13 p
        \<and> (resolve_guid tbl (rot13 p) = p \<longleftrightarrow> (\<forall>c \<in> set p. \<not> ascii_letter c)))"
  by (simp add: resolve_guid_no_key rot13_fixed)

theorem plain_path_resolution_witness:
  "(let tbl = [(''{A1}'', ''Docs'')]; p = ''Docs'' @ [backslash] @ ''app.exe''
    in split_first backslash p \<notin> fst ` set tbl \<and> resolve_guid tbl p = p
       \<and> split_first backslash (rot13 p) \<notin> fst ` set tbl
       \<and> resolve_guid tbl (rot13 p) = rot13 p
       \<and> rot13 p = ''Qbpf'' @ [backslash] @ ''ncc.rkr''
       \<and> \<not> (\<forall>c \<in> set p. \<not> ascii_letter c) \<and> resolve_guid tbl (rot13 p) \<noteq> p)
   \<and> (let tbl = [(''{A1}'', ''Docs'')]; p = ''123'' @ [backslash] @ ''456.789''
      in split_first backslash (rot13 p) \<notin> fst ` set tbl
         \<and> (\<forall>c \<in> set p. \<not> ascii_letter c) \<and> resolve_guid tbl (rot13 p) = p)"
proof -
  let ?tbl = "[(''{A1}'', ''Docs'')]"
  let ?p = "''Docs'' @ [backslash] @ ''app.exe''"
  let ?q = "''123'' @ [backslash] @ ''456.789''"
  have a: "split_first backslash ?p \<notin> fst ` set ?tbl"
    "split_first backslash (rot13 ?p) \<notin> fst ` set ?tbl"
    "rot13 ?p = ''Qbpf'' @ [backslash] @ ''ncc.rkr''"
    "\<not> (\<forall>c \<in> set ?p. \<not> ascii_letter c)"
    by code_simp+
  have b: "split_first backslash (rot13 ?q) \<notin> fst ` set ?tbl"
    "\<forall>c \<in> set ?q. \<not> ascii_letter c"
    by code_simp+
  from plain_path_resolution [of ?p ?tbl] a
  have r: "resolve_guid ?tbl ?p = ?p" "resolve_guid ?tbl (rot13 ?p) = rot13 ?p"
    "resolve_guid ?tbl (rot13 ?p) \<noteq> ?p"
    by blast+
  from plain_path_resolution [of ?q ?tbl] b
  have s: "resolve_guid ?tbl (rot13 ?q) = ?q"
    by blast
  show ?thesis
    unfolding Let_def using a b r s by blast
qed

text \<open>
  The claim as stated fails: the name that decodes to the segments \<^verbatim>\<open>{A1}\<close>,
  \<^verbatim>\<open>app.exe\<close> resolves to the segments \<^verbatim>\<open>Docs\<close>, \<^verbatim>\<open>app.exe\<close>, a plain path with no
  encoded identifier, and resolving that path again does not return it unchanged.
\<close>

theorem resolve_twice_counterexample:
  "(let tbl = [(''{A1}'', ''Docs'')];
        name = ''{N1}'' @ [backslash] @ ''ncc.rkr'';
        p = ''Docs'' @ [backslash] @ ''app.exe''
    in resolve_guid tbl (rot13 name) = p
       \<and> split_first backslash (rot13 p) \<notin> fst ` set tbl
       \<and> resolve_guid tbl (rot13 p) \<noteq> p)"
  by code_simp

section \<open>A timestamp out of range\<close>

lemma parse_values_error:
  "(name, data) \<in> set vals \<Longrightarrow> raw_data_parser data = Inl e \<Longrightarrow>
     \<exists>e'. parse_values tbl vals = Inl e'"
proof (induction vals)
  case Nil
  then show ?case by simp
next
  case (Cons v vs)
  obtain n d where v: "v = (n, d)" by (cases v)
  show ?case
  proof (cases "raw_data_parser d")
    case (Inl a)
    then show ?thesis by (simp add: v)
  next
    case (Inr r)
    with Cons.prems v have "(name, data) \<in> set vs" by auto
    with Cons obtain e' where "parse_values tbl vs = Inl e'" by blast
    with Inr show ?thesis by (simp add: v)
  qed
qed

lemma parse_guids_error:
  "(g, Some vals) \<in> set guids \<Longrightarrow> parse_values tbl vals = Inl e \<Longrightarrow>
     \<exists>e'. snd (parse_guids tbl guids) = Inl e'"
proof (induction guids)
  case Nil
  then show ?case by simp
next
  case (Cons x xs)
  obtain gn cnt where x: "x = (gn, cnt)" by (cases x)
  show ?case
  proof (cases "x = (g, Some vals)")
    case True
    with Cons.prems(2) have "vals \<noteq> []" by auto
    with True Cons.prems(2) show ?thesis by simp
  next
    case False
    with Cons obtain e' where e': "snd (parse_guids tbl xs) = Inl e'" by auto
    show ?thesis
    proof (cases cnt)
      case None
      then show ?thesis by (simp add: x)
    next
      case (Some vs)
      then show ?thesis
        using e' by (cases "parse_values tbl vs") (auto simp: x split: prod.splits)
    qed
  qed
qed

lemma main_get_key_error:
  "snd (get_key tbl file) = Inl e \<Longrightarrow>
     raised (main tbl (Some file)) = Some e \<and> csv_file (main tbl (Some file)) = None"
  by (cases "get_key tbl file") (simp add: main_def)

lemma datetime_of_seconds_error: "datetime_of_seconds s us = Inl e \<Longrightarrow> e = ValueError"
  by (auto simp: datetime_of_seconds_def Let_def split: prod.splits if_splits)

lemma convert_filetime_error: "convert_filetime ft = Inl e \<Longrightarrow> e = ValueError"
proof -
  assume h: "convert_filetime ft = Inl e"
  obtain secs us
    where s: "timestamp_split (true_divide (ft - EPOCH_AS_FILETIME) HUNDREDS_OF_NANOSECONDS)
                = (secs, us)"
    by (cases "timestamp_split (true_divide (ft - EPOCH_AS_FILETIME) HUNDREDS_OF_NANOSECONDS)")
  show ?thesis
  proof (cases "datetime_of_seconds secs us")
    case (Inl a)
    then have "a = ValueError" by (rule datetime_of_seconds_error)
    with h Inl s show ?thesis by (simp add: convert_filetime_def utcfromtimestamp_def)
  next
    case (Inr dt)
    with h s show ?thesis by (simp add: convert_filetime_def utcfromtimestamp_def)
  qed
qed

lemma raw_data_parser_error: "raw_data_parser data = Inl e \<Longrightarrow> e = ValueError"
proof -
  assume h: "raw_data_parser data = Inl e"
  consider "length data = 16" | "length data = 72" | "length data \<noteq> 16" "length data \<noteq> 72"
    by blast
  then show ?thesis
  proof cases
    case 1
    with h show ?thesis
      by (cases "convert_filetime (u64_le data 8)")
         (auto simp: raw16_spec split: if_splits dest: convert_filetime_error)
  next
    case 2
    with h show ?thesis
      by (cases "convert_filetime (u64_le data 60)")
         (auto simp: raw72_spec split: if_splits dest: convert_filetime_error)
  next
    case 3
    with h show ?thesis by (simp add: raw_data_parser_other)
  qed
qed

lemma parse_values_error_kind: "parse_values tbl vs = Inl e \<Longrightarrow> e = ValueError"
proof (induction vs arbitrary: e)
  case Nil
  then show ?case by simp
next
  case (Cons v vs)
  obtain n d where v: "v = (n, d)" by (cases v)
  show ?case
  proof (cases "raw_data_parser d")
    case (Inl a)
    then have "a = ValueError" by (rule raw_data_parser_error)
    with Cons.prems Inl v show ?thesis by simp
  next
    case (Inr r)
    show ?thesis
    proof (cases "parse_values tbl vs")
      case (Inl a)
      then have "a = ValueError" by (rule Cons.IH)
      with Cons.prems Inr Inl v show ?thesis by simp
    next
      case (Inr rest)
      with Cons.prems \<open>raw_data_parser d = Inr r\<close> v show ?thesis by simp
    qed
  qed
qed

lemma parse_values_stops:
  assumes "raw_data_parser data = Inl e"
  shows "parse_values tbl (vpre @ (name, data) # vpost) = Inl ValueError"
    and "parse_values tbl (vpre @ [(name, data)]) = Inl ValueError"
proof -
  have k: "e = ValueError" using assms by (rule raw_data_parser_error)
  have "parse_values tbl (vpre @ (name, data) # rest) = Inl ValueError" for rest
  proof (induction vpre)
    case Nil
    then show ?case using assms k by simp
  next
    case (Cons v vs)
    obtain n d where v: "v = (n, d)" by (cases v)
    show ?case
    proof (cases "raw_data_parser d")
      case (Inl a)
      then have "a = ValueError" by (rule raw_data_parser_error)
      with Inl v show ?thesis by simp
    next
      case (Inr r)
      with Cons v show ?thesis by simp
    qed
  qed
  then show "parse_values tbl (vpre @ (name, data) # vpost) = Inl ValueError"
    and "parse_values tbl (vpre @ [(name, data)]) = Inl ValueError"
    by blast+
qed

lemma parse_guids_stops:
  assumes "parse_values tbl vals = Inl e" "parse_values tbl vals' = Inl e"
  shows "parse_guids tbl (pre @ (g, Some vals) # post) = parse_guids tbl (pre @ [(g, Some vals')])"
proof (induction pre)
  case Nil
  have "vals \<noteq> []" "vals' \<noteq> []" using assms by auto
  then show ?case using assms by simp
next
  case (Cons x xs)
  obtain gn cnt where x: "x = (gn, cnt)" by (cases x)
  show ?case using Cons by (simp add: x split: option.splits sum.splits)
qed

lemma parse_guids_error_kind:
  "snd (parse_guids tbl gs) = Inl e \<Longrightarrow> e = ValueError \<or> e = RegistryKeyNotFoundException"
proof (induction gs arbitrary: e)
  case Nil
  then show ?case by simp
next
  case (Cons x xs)
  obtain gn cnt where x: "x = (gn, cnt)" by (cases x)
  show ?case
  proof (cases cnt)
    case None
    with Cons.prems x show ?thesis by simp
  next
    case (Some vs)
    show ?thesis
    proof (cases "vs = []")
      case True
      with Cons Some x show ?thesis by simp
    next
      case False
      show ?thesis
      proof (cases "parse_values tbl vs")
        case (Inl a)
        then have "a = ValueError" by (rule parse_values_error_kind)
        with Cons.prems Inl Some False x show ?thesis by simp
      next
        case (Inr rows)
        obtain msgs r where p: "parse_guids tbl xs = (msgs, r)" by (cases "parse_guids tbl xs")
        show ?thesis
        proof (cases r)
          case (Inl a)
          with p Cons.IH have "a = ValueError \<or> a = RegistryKeyNotFoundException" by simp
          with Cons.prems Inr Some False x p Inl show ?thesis by simp
        next
          case (Inr rest)
          with Cons.prems \<open>parse_values tbl vs = Inr rows\<close> Some False x p show ?thesis by simp
        qed
      qed
    qed
  qed
qed

lemma parse_guids_value_error:
  assumes "parse_values tbl vals = Inl e" and "\<forall>x \<in> set pre. snd x \<noteq> None"
  shows "snd (parse_guids tbl (pre @ (g, Some vals) # post)) = Inl ValueError"
  using assms(2)
proof (induction pre)
  case Nil
  have "vals \<noteq> []" using assms(1) by auto
  moreover have "e = ValueError" using assms(1) by (rule parse_values_error_kind)
  ultimately show ?case using assms(1) by simp
next
  case (Cons x xs)
  obtain gn cnt where x: "x = (gn, cnt)" by (cases x)
  from Cons.prems x obtain vs where cnt: "cnt = Some vs" by auto
  from Cons have ih: "snd (parse_guids tbl (xs @ (g, Some vals) # post)) = Inl ValueError"
    by simp
  show ?case
  proof (cases "vs = []")
    case True
    with ih show ?thesis by (simp add: x cnt)
  next
    case False
    show ?thesis
    proof (cases "parse_values tbl vs")
      case (Inl a)
      then have "a = ValueError" by (rule parse_values_error_kind)
      with Inl False show ?thesis by (simp add: x cnt)
    next
      case (Inr rows)
      with ih False show ?thesis
        by (cases "parse_guids tbl (xs @ (g, Some vals) # post)") (simp add: x cnt)
    qed
  qed
qed

lemma get_key_guids:
  "snd (get_key tbl (Regf ''ntuser.dat'' (Some guids)))
     = bind_err (snd (parse_guids tbl guids)) (\<lambda>pd_list. Inr (Some pd_list))"
  by (cases "parse_guids tbl guids") (simp add: get_key_def)

lemma main_guids_cong:
  "parse_guids tbl a = parse_guids tbl b \<Longrightarrow>
     main tbl (Some (Regf ''ntuser.dat'' (Some a))) = main tbl (Some (Regf ''ntuser.dat'' (Some b)))"
  by (simp add: main_def get_key_def)

text \<open>
  Claim C6 (as amended). Let the filetime of some value of some \<^verbatim>\<open>Count\<close> key be not zero
  and let \<^verbatim>\<open>convert_filetime\<close> raise \<^verbatim>\<open>ValueError\<close> on it. Then \<^verbatim>\<open>raw_data_parser\<close> raises
  \<^verbatim>\<open>ValueError\<close>, nothing in \<^verbatim>\<open>get_key\<close> or \<^verbatim>\<open>main\<close> catches an exception of the loops, and
  the run ends with an exception and without a file: \<^verbatim>\<open>write_output\<close> is never called. The
  exception is \<^verbatim>\<open>ValueError\<close>, or \<^verbatim>\<open>RegistryKeyNotFoundException\<close> from an earlier subkey
  without a \<^verbatim>\<open>Count\<close> key; it is \<^verbatim>\<open>ValueError\<close> when every earlier subkey has a \<^verbatim>\<open>Count\<close>
  key. Nothing after that value is processed: the run is the same as the run on the hive cut
  off after it.
\<close>

theorem out_of_range_aborts_run:
  assumes "length data = 16 \<and> ft = u64_le data 8 \<or> length data = 72 \<and> ft = u64_le data 60"
    and "ft \<noteq> 0" and "convert_filetime ft = Inl ValueError"
    and "guids = pre @ (g, Some (vpre @ (name, data) # vpost)) # post"
  shows "raw_data_parser data = Inl ValueError
     \<and> (\<exists>e. (e = ValueError \<or> e = RegistryKeyNotFoundException)
           \<and> snd (get_key tbl (Regf ''ntuser.dat'' (Some guids))) = Inl e
           \<and> raised (main tbl (Some (Regf ''ntuser.dat'' (Some guids)))) = Some e)
     \<and> csv_file (main tbl (Some (Regf ''ntuser.dat'' (Some guids)))) = None
     \<and> ((\<forall>x \<in> set pre. snd x \<noteq> None) \<longrightarrow>
           snd (get_key tbl (Regf ''ntuser.dat'' (Some guids))) = Inl ValueError
           \<and> raised (main tbl (Some (Regf ''ntuser.dat'' (Some guids)))) = Some ValueError)
     \<and> main tbl (Some (Regf ''ntuser.dat'' (Some guids)))
         = main tbl (Some (Regf ''ntuser.dat''
             (Some (pre @ [(g, Some (vpre @ [(name, data)]))]))))"
proof -
  let ?vals = "vpre @ (name, data) # vpost" and ?vals' = "vpre @ [(name, data)]"
  let ?file = "Regf ''ntuser.dat'' (Some guids)"
  have r: "raw_data_parser data = Inl ValueError"
    using assms(1-3) by (auto simp: raw16_spec raw72_spec)
  note pv = parse_values_stops [OF r, of tbl vpre name]
  have pg: "parse_guids tbl guids = parse_guids tbl (pre @ [(g, Some ?vals')])"
    unfolding assms(4) using pv(1) [of vpost] pv(2) by (rule parse_guids_stops)
  have "(g, Some ?vals) \<in> set guids" unfolding assms(4) by simp
  from parse_guids_error [OF this pv(1)]
  obtain e where e: "snd (parse_guids tbl guids) = Inl e" by blast
  then have k: "e = ValueError \<or> e = RegistryKeyNotFoundException"
    by (rule parse_guids_error_kind)
  from e have ge: "snd (get_key tbl ?file) = Inl e" by (simp add: get_key_guids)
  note m = main_get_key_error [OF ge]
  have v: "snd (get_key tbl ?file) = Inl ValueError \<and> raised (main tbl (Some ?file)) = Some ValueError"
    if "\<forall>x \<in> set pre. snd x \<noteq> None"
  proof -
    from parse_guids_value_error [OF pv(1) that, where g = g and post = post]
    have "snd (parse_guids tbl guids) = Inl ValueError" unfolding assms(4) .
    then have "snd (get_key tbl ?file) = Inl ValueError" by (simp add: get_key_guids)
    with main_get_key_error [OF this] show ?thesis by simp
  qed
  from r k ge m v main_guids_cong [OF pg] show ?thesis by blast
qed

theorem out_of_range_aborts_run_witness:
  "(let pre = [(''g0'', Some [])];
        vpre = [(''x'', replicate 16 (0 :: byte))];
        data = replicate 16 (255 :: byte);
        vpost = [(''m'', replicate 16 (0 :: byte))];
        post = [(''g2'', Some [(''z'', replicate 16 (0 :: byte))])];
        ft = 18446744073709551615;
        guids = pre @ (''g'', Some (vpre @ (''n'', data) # vpost)) # post
    in length data = 16 \<and> ft = u64_le data 8 \<and> ft \<noteq> 0
       \<and> convert_filetime ft = Inl ValueError
       \<and> (\<forall>x \<in> set pre. snd x \<noteq> None)
       \<and> raw_data_parser data = Inl ValueError
       \<and> snd (get_key [] (Regf ''ntuser.dat'' (Some guids))) = Inl ValueError
       \<and> raised (main [] (Some (Regf ''ntuser.dat'' (Some guids)))) = Some ValueError
       \<and> csv_file (main [] (Some (Regf ''ntuser.dat'' (Some guids)))) = None
       \<and> main [] (Some (Regf ''ntuser.dat'' (Some guids)))
           = main [] (Some (Regf ''ntuser.dat''
               (Some (pre @ [(''g'', Some (vpre @ [(''n'', data)]))])))))"
proof -
  let ?pre = "[(''g0'', Some [])] :: guid_key list"
  let ?vpre = "[(''x'', replicate 16 (0 :: byte))]"
  let ?data = "replicate 16 (255 :: byte)"
  let ?vpost = "[(''m'', replicate 16 (0 :: byte))]"
  let ?post = "[(''g2'', Some [(''z'', replicate 16 (0 :: byte))])]"
  let ?ft = "18446744073709551615 :: int"
  have h1: "length ?data = 16 \<and> ?ft = u64_le ?data 8 \<or> length ?data = 72 \<and> ?ft = u64_le ?data 60"
    by code_simp
  have h1': "length ?data = 16" "?ft = u64_le ?data 8"
    by code_simp+
  have h2: "?ft \<noteq> 0" by simp
  have h3: "convert_filetime ?ft = Inl ValueError" by code_simp
  have h4: "\<forall>x \<in> set ?pre. snd x \<noteq> None" by simp
  note t = out_of_range_aborts_run [OF h1 h2 h3 refl,
      where pre = ?pre and g = "''g''" and vpre = ?vpre and name = "''n''" and vpost = ?vpost
        and post = ?post and tbl = "[]"]
  show ?thesis
    unfolding Let_def using t h1' h2 h3 h4 by blast
qed

text \<open>
  The claim as stated, that only the one field is left absent and the other records are
  still processed, fails: with a first value whose filetime is \<open>2\<^sup>6\<^sup>4 - 1\<close> and a second,
  well-formed value, the run ends with \<^verbatim>\<open>ValueError\<close> and without a file.
\<close>

theorem out_of_range_counterexample:
  "main [] (Some (Regf ''ntuser.dat''
       (Some [(''g'', Some [(''n'', replicate 16 255), (''m'', replicate 16 0)])])))
   = \<lparr> stdout = [FoundKey, FoundGuid ''g'', ParsingValues], csv_file = None,
       raised = Some ValueError \<rparr>"
  by code_simp

section \<open>The layout of 16 bytes\<close>

text \<open>
  Claim C1 (as amended). For a payload of 16 bytes, with the run count read as the
  little-endian unsigned 32-bit integer at \<^verbatim>\<open>bytes[4:8]\<close> and the filetime as the
  little-endian unsigned 64-bit integer at \<^verbatim>\<open>bytes[8:16]\<close>: when the filetime is zero the
  result is run count minus 5, no focus count, no focus time and no last execution time;
  when the filetime is not zero and \<^verbatim>\<open>convert_filetime\<close> returns a text, the result is the
  same with that text as last execution time; and when \<^verbatim>\<open>convert_filetime\<close> raises, so does
  \<^verbatim>\<open>raw_data_parser\<close>, and nothing is returned.
\<close>

theorem decode_16:
  "length data = 16 \<Longrightarrow>
     (u64_le data 8 = 0 \<longrightarrow>
        raw_data_parser data
          = Inr [PyInt (u32_le data 4 - 5), PyStr '''', PyStr '''', PyStr ''''])
     \<and> (\<forall>s. u64_le data 8 \<noteq> 0 \<and> convert_filetime (u64_le data 8) = Inr s \<longrightarrow>
          raw_data_parser data
            = Inr [PyInt (u32_le data 4 - 5), PyStr '''', PyStr '''', PyStr s])
     \<and> (\<forall>e. u64_le data 8 \<noteq> 0 \<and> convert_filetime (u64_le data 8) = Inl e \<longrightarrow>
          raw_data_parser data = Inl e)"
  by (simp add: raw16_spec)

theorem decode_16_witness:
  "(let data = [0, 0, 0, 0, 5, 0, 0, 0] @ replicate 8 0
    in length data = 16 \<and> u64_le data 8 = 0 \<and> u32_le data 4 - 5 = 0
       \<and> raw_data_parser data = Inr [PyInt (u32_le data 4 - 5), PyStr '''', PyStr '''', PyStr ''''])
   \<and> (let data = [0, 0, 0, 0, 7, 0, 0, 0, 0, 0x80, 0x3E, 0xD5, 0xDE, 0xB1, 0x9D, 0x01]
      in length data = 16 \<and> u64_le data 8 \<noteq> 0 \<and> u32_le data 4 - 5 = 2
         \<and> convert_filetime (u64_le data 8) = Inr ''1970-01-01 00:00:00 (UTC)''
         \<and> raw_data_parser data = Inr [PyInt (u32_le data 4 - 5), PyStr '''', PyStr '''',
                                         PyStr ''1970-01-01 00:00:00 (UTC)''])
   \<and> (let data = [0, 0, 0, 0, 5, 0, 0, 0] @ replicate 8 255
      in length data = 16 \<and> u64_le data 8 \<noteq> 0
         \<and> convert_filetime (u64_le data 8) = Inl ValueError
         \<and> raw_data_parser data = Inl ValueError)"
proof -
  let ?a = "[0, 0, 0, 0, 5, 0, 0, 0] @ replicate 8 (0 :: byte)"
  let ?b = "[0, 0, 0, 0, 7, 0, 0, 0, 0, 0x80, 0x3E, 0xD5, 0xDE, 0xB1, 0x9D, 0x01 :: byte]"
  let ?c = "[0, 0, 0, 0, 5, 0, 0, 0] @ replicate 8 (255 :: byte)"
  have a: "length ?a = 16" "u64_le ?a 8 = 0" "u32_le ?a 4 - 5 = 0"
    by code_simp+
  have b: "length ?b = 16"
    "u64_le ?b 8 \<noteq> 0 \<and> convert_filetime (u64_le ?b 8) = Inr ''1970-01-01 00:00:00 (UTC)''"
    "u32_le ?b 4 - 5 = 2"
    by code_simp+
  have c: "length ?c = 16"
    "u64_le ?c 8 \<noteq> 0 \<and> convert_filetime (u64_le ?c 8) = Inl ValueError"
    by code_simp+
  from decode_16 [OF a(1)] a(2)
  have ra: "raw_data_parser ?a = Inr [PyInt (u32_le ?a 4 - 5), PyStr '''', PyStr '''', PyStr '''']"
    by blast
  from decode_16 [OF b(1)] b(2)
  have rb: "raw_data_parser ?b = Inr [PyInt (u32_le ?b 4 - 5), PyStr '''', PyStr '''',
                                       PyStr ''1970-01-01 00:00:00 (UTC)'']"
    by blast
  from decode_16 [OF c(1)] c(2)
  have rc: "raw_data_parser ?c = Inl ValueError"
    by blast
  show ?thesis
    unfolding Let_def using a b c ra rb rc by blast
qed

text \<open>
  The claim as stated, for every payload of 16 bytes, fails where the filetime is out of
  range: with all eight bytes of the filetime \<^verbatim>\<open>0xFF\<close> no record is returned.
\<close>

theorem decode_16_counterexample:
  "raw_data_parser ([0, 0, 0, 0, 5, 0, 0, 0] @ replicate 8 255) = Inl ValueError"
  by code_simp

section \<open>The layout of 72 bytes\<close>

text \<open>
  Claim C2 (as amended). For a payload of 72 bytes the run count is the little-endian
  unsigned 32-bit integer at \<^verbatim>\<open>bytes[4:8]\<close>, with nothing subtracted, the focus count the
  one at \<^verbatim>\<open>bytes[8:12]\<close>, and the focus time is \<open>focus_time_text\<close> of the one at
  \<^verbatim>\<open>bytes[12:16]\<close>: \<^verbatim>\<open>H:MM:SS\<close> of the milliseconds truncated to whole seconds below one
  day, with the days written in front from one day on. The last execution time is as in the
  layout of 16 bytes, from the filetime at \<^verbatim>\<open>bytes[60:68]\<close>: empty for zero, the text of
  \<^verbatim>\<open>convert_filetime\<close> when it returns one, and its exception otherwise.
\<close>

theorem decode_72:
  "length data = 72 \<Longrightarrow>
     (u64_le data 60 = 0 \<longrightarrow>
        raw_data_parser data
          = Inr [PyInt (u32_le data 4), PyInt (u32_le data 8),
                 PyStr (focus_time_text (u32_le data 12)), PyStr ''''])
     \<and> (\<forall>s. u64_le data 60 \<noteq> 0 \<and> convert_filetime (u64_le data 60) = Inr s \<longrightarrow>
          raw_data_parser data
            = Inr [PyInt (u32_le data 4), PyInt (u32_le data 8),
                   PyStr (focus_time_text (u32_le data 12)), PyStr s])
     \<and> (\<forall>e. u64_le data 60 \<noteq> 0 \<and> convert_filetime (u64_le data 60) = Inl e \<longrightarrow>
          raw_data_parser data = Inl e)"
  by (simp add: raw72_spec focus_time_eq u32_le_nonneg)

theorem decode_72_witness:
  "(let data = replicate 4 0 @ [7, 0, 0, 0, 3, 0, 0, 0, 0xDF, 0xD2, 0x38, 0] @ replicate 56 0
    in length data = 72 \<and> u64_le data 60 = 0 \<and> u32_le data 4 = 7 \<and> u32_le data 8 = 3
       \<and> u32_le data 12 = 3723999 \<and> focus_time_text (u32_le data 12) = ''1:02:03''
       \<and> raw_data_parser data
           = Inr [PyInt (u32_le data 4), PyInt (u32_le data 8),
                  PyStr (focus_time_text (u32_le data 12)), PyStr ''''])
   \<and> (let data = replicate 4 0 @ [7, 0, 0, 0, 3, 0, 0, 0, 0, 0x5C, 0x26, 0x05] @ replicate 44 0
                  @ [0, 0x80, 0x3E, 0xD5, 0xDE, 0xB1, 0x9D, 0x01] @ replicate 4 0
      in length data = 72 \<and> u64_le data 60 \<noteq> 0
         \<and> convert_filetime (u64_le data 60) = Inr ''1970-01-01 00:00:00 (UTC)''
         \<and> u32_le data 12 = 86400000 \<and> focus_time_text (u32_le data 12) = ''1 day, 0:00:00''
         \<and> raw_data_parser data
             = Inr [PyInt (u32_le data 4), PyInt (u32_le data 8),
                    PyStr (focus_time_text (u32_le data 12)), PyStr ''1970-01-01 00:00:00 (UTC)''])
   \<and> (let data = replicate 60 0 @ replicate 8 255 @ replicate 4 0
      in length data = 72 \<and> u64_le data 60 \<noteq> 0
         \<and> convert_filetime (u64_le data 60) = Inl ValueError
         \<and> raw_data_parser data = Inl ValueError)"
proof -
  let ?a = "replicate 4 0 @ [7, 0, 0, 0, 3, 0, 0, 0, 0xDF, 0xD2, 0x38, 0] @ replicate 56 (0 :: byte)"
  let ?b = "replicate 4 0 @ [7, 0, 0, 0, 3, 0, 0, 0, 0, 0x5C, 0x26, 0x05] @ replicate 44 0
                  @ [0, 0x80, 0x3E, 0xD5, 0xDE, 0xB1, 0x9D, 0x01] @ replicate 4 (0 :: byte)"
  let ?c = "replicate 60 0 @ replicate 8 255 @ replicate 4 (0 :: byte)"
  have a: "length ?a = 72" "u64_le ?a 60 = 0" "u32_le ?a 4 = 7" "u32_le ?a 8 = 3"
    "u32_le ?a 12 = 3723999" "focus_time_text (u32_le ?a 12) = ''1:02:03''"
    by code_simp+
  have b: "length ?b = 72"
    "u64_le ?b 60 \<noteq> 0 \<and> convert_filetime (u64_le ?b 60) = Inr ''1970-01-01 00:00:00 (UTC)''"
    "u32_le ?b 12 = 86400000" "focus_time_text (u32_le ?b 12) = ''1 day, 0:00:00''"
    by code_simp+
  have c: "length ?c = 72"
    "u64_le ?c 60 \<noteq> 0 \<and> convert_filetime (u64_le ?c 60) = Inl ValueError"
    by code_simp+
  from decode_72 [OF a(1)] a(2)
  have ra: "raw_data_parser ?a = Inr [PyInt (u32_le ?a 4), PyInt (u32_le ?a 8),
                  PyStr (focus_time_text (u32_le ?a 12)), PyStr '''']"
    by blast
  from decode_72 [OF b(1)] b(2)
  have rb: "raw_data_parser ?b = Inr [PyInt (u32_le ?b 4), PyInt (u32_le ?b 8),
                    PyStr (focus_time_text (u32_le ?b 12)), PyStr ''1970-01-01 00:00:00 (UTC)'']"
    by blast
  from decode_72 [OF c(1)] c(2)
  have rc: "raw_data_parser ?c = Inl ValueError"
    by blast
  show ?thesis
    unfolding Let_def using a b c ra rb rc by blast
qed

text \<open>
  The claim as stated fails for a focus time of one day: 86400000 milliseconds are
  returned as \<^verbatim>\<open>1 day, 0:00:00\<close>, where \<^verbatim>\<open>H:MM:SS\<close> of the whole seconds is \<^verbatim>\<open>24:00:00\<close>.
\<close>

theorem decode_72_counterexample:
  "(let data = replicate 4 0 @ [7, 0, 0, 0, 3, 0, 0, 0, 0, 0x5C, 0x26, 0x05] @ replicate 56 0
    in length data = 72 \<and> u32_le data 12 = 86400000
       \<and> raw_data_parser data = Inr [PyInt 7, PyInt 3, PyStr ''1 day, 0:00:00'', PyStr '''']
       \<and> hmmss (u32_le data 12 div 1000) = ''24:00:00'')"
  by code_simp

section \<open>Rounding to a double\<close>

lemma rhe_of_int [simp]: "round_half_even (of_int k) = k"
  by (simp add: round_half_even_def)

lemma rhe_lower: "\<lfloor>x\<rfloor> \<le> round_half_even x"
  by (simp add: round_half_even_def Let_def)

lemma rhe_upper: "round_half_even x \<le> \<lceil>x\<rceil>"
proof (cases "x = of_int \<lfloor>x\<rfloor>")
  case True
  then have "round_half_even x = \<lfloor>x\<rfloor>"
    by (metis rhe_of_int)
  then show ?thesis by (simp add: floor_le_ceiling)
next
  case False
  then have "\<lceil>x\<rceil> = \<lfloor>x\<rfloor> + 1"
    by (metis ceiling_altdef)
  then show ?thesis by (simp add: round_half_even_def Let_def)
qed

lemma rhe_mono: "x \<le> y \<Longrightarrow> round_half_even x \<le> round_half_even y"
proof -
  assume xy: "x \<le> y"
  then have f: "\<lfloor>x\<rfloor> \<le> \<lfloor>y\<rfloor>" by (rule floor_mono)
  show ?thesis
  proof (cases "\<lfloor>x\<rfloor> = \<lfloor>y\<rfloor>")
    case True
    with xy show ?thesis
      by (auto simp: round_half_even_def Let_def)
  next
    case False
    with f have lt: "\<lfloor>x\<rfloor> < \<lfloor>y\<rfloor>" by simp
    have "round_half_even x \<le> \<lfloor>x\<rfloor> + 1"
      by (simp add: round_half_even_def Let_def)
    also have "\<dots> \<le> \<lfloor>y\<rfloor>" using lt by simp
    also have "\<dots> \<le> round_half_even y" by (rule rhe_lower)
    finally show ?thesis .
  qed
qed

lemma rhe_minus: "round_half_even (- x) = - round_half_even x"
proof (cases "x = of_int \<lfloor>x\<rfloor>")
  case True
  then obtain k where "x = of_int k" by metis
  then have "- x = of_int (- k)" by simp
  then show ?thesis using \<open>x = of_int k\<close> rhe_of_int by metis
next
  case False
  then have c: "\<lfloor>- x\<rfloor> = - \<lfloor>x\<rfloor> - 1"
    by (metis ceiling_altdef ceiling_def minus_diff_eq  diff_minus_eq_add minus_add_distrib uminus_add_conv_diff add.inverse_inverse)
  have "of_int \<lfloor>x\<rfloor> < x" using False by (metis of_int_floor_le order_less_le)
  then show ?thesis
    unfolding round_half_even_def Let_def c by (auto simp: field_simps)
qed

lemma p2_less_cancel: "(2::rat) powi a < 2 powi b \<Longrightarrow> a < b"
proof (rule ccontr)
  assume h: "(2::rat) powi a < 2 powi b" and "\<not> a < b"
  then have "b \<le> a" by simp
  then have "(2::rat) powi b \<le> 2 powi a" by (rule power_int_increasing) simp
  with h show False by simp
qed

lemma p2_pos [simp]: "0 < (2::rat) powi a"
  by simp

lemma bitlen_powi:
  assumes "0 < p"
  shows "(2::rat) powi (bitlen p - 1) \<le> of_int p" "of_int p < (2::rat) powi (bitlen p)"
proof -
  from bitlen_bounds [OF assms]
  have b: "2 ^ nat (bitlen p - 1) \<le> p" "p < 2 ^ nat (bitlen p)" by simp_all
  have ge: "1 \<le> bitlen p" using assms by (simp add: bitlen_alt_def)
  have "(2::rat) powi (bitlen p - 1) = of_int (2 ^ nat (bitlen p - 1))"
    using ge by (simp add: power_int_nonneg_exp)
  also have "\<dots> \<le> of_int p" using b(1) by (simp only: of_int_le_iff)
  finally show "(2::rat) powi (bitlen p - 1) \<le> of_int p" .
  have "(of_int p :: rat) < of_int (2 ^ nat (bitlen p))"
    using b(2) by (simp only: of_int_less_iff)
  also have "\<dots> = 2 powi (bitlen p)"
    using ge by (simp add: power_int_nonneg_exp)
  finally show "of_int p < (2::rat) powi (bitlen p)" .
qed

lemma ilog2_bounds:
  assumes "x \<noteq> 0"
  shows "2 powi (ilog2 x) \<le> \<bar>x\<bar>" "\<bar>x\<bar> < 2 powi (ilog2 x + 1)"
proof -
  obtain p q where pq: "quotient_of \<bar>x\<bar> = (p, q)" by (cases "quotient_of \<bar>x\<bar>")
  then have q: "0 < q" by (rule quotient_of_denom_pos)
  from pq have x: "\<bar>x\<bar> = of_int p / of_int q" by (rule quotient_of_div)
  have "0 < \<bar>x\<bar>" using assms by simp
  with x q have p: "0 < p" by (simp add: zero_less_divide_iff)
  let ?k = "bitlen p - bitlen q"
  note bp = bitlen_powi [OF p] and bq = bitlen_powi [OF q]
  have qpos: "(0::rat) < of_int q" using q by simp
  have up: "\<bar>x\<bar> < 2 powi (?k + 1)"
  proof -
    have "of_int p / of_int q < (2::rat) powi (bitlen p) / 2 powi (bitlen q - 1)"
      using bp(2) bq(1) p by (intro frac_less) simp_all
    also have "\<dots> = 2 powi (bitlen p - (bitlen q - 1))"
      by (simp add: power_int_diff)
    finally show ?thesis using x by (simp add: algebra_simps)
  qed
  have lo: "2 powi (?k - 1) \<le> \<bar>x\<bar>"
  proof -
    have "(2::rat) powi (bitlen p - 1) / 2 powi (bitlen q) \<le> of_int p / of_int q"
      using bp(1) bq(2) qpos p by (intro frac_le) simp_all
    moreover have "(2::rat) powi (bitlen p - 1) / 2 powi (bitlen q) = 2 powi (bitlen p - 1 - bitlen q)"
      by (simp add: power_int_diff)
    ultimately show ?thesis using x by (simp add: algebra_simps)
  qed
  have il: "ilog2 x = (if 2 powi ?k \<le> \<bar>x\<bar> then ?k else ?k - 1)"
    by (simp add: ilog2_def pq Let_def)
  show "2 powi (ilog2 x) \<le> \<bar>x\<bar>" using lo by (simp add: il)
  show "\<bar>x\<bar> < 2 powi (ilog2 x + 1)" using up by (auto simp: il not_le)
qed

lemma ilog2_unique:
  assumes "2 powi e \<le> \<bar>x\<bar>" "\<bar>x\<bar> < 2 powi (e + 1)"
  shows "ilog2 x = e"
proof -
  have "0 < \<bar>x\<bar>" using p2_pos [of e] assms(1) by (rule less_le_trans)
  then have nz: "x \<noteq> 0" by simp
  note b = ilog2_bounds [OF nz]
  have "(2::rat) powi (ilog2 x) < 2 powi (e + 1)" using b(1) assms(2) by simp
  then have 1: "ilog2 x < e + 1" by (rule p2_less_cancel)
  have "(2::rat) powi e < 2 powi (ilog2 x + 1)" using b(2) assms(1) by simp
  then have 2: "e < ilog2 x + 1" by (rule p2_less_cancel)
  from 1 2 show ?thesis by simp
qed

lemma ilog2_mono:
  assumes "x \<noteq> 0" "\<bar>x\<bar> \<le> \<bar>y\<bar>"
  shows "ilog2 x \<le> ilog2 y"
proof -
  have ny: "y \<noteq> 0" using assms by auto
  have "(2::rat) powi (ilog2 x) \<le> \<bar>x\<bar>" by (rule ilog2_bounds [OF assms(1)])
  also have "\<dots> \<le> \<bar>y\<bar>" by fact
  also have "\<dots> < 2 powi (ilog2 y + 1)" by (rule ilog2_bounds [OF ny])
  finally have "ilog2 x < ilog2 y + 1" by (rule p2_less_cancel)
  then show ?thesis by simp
qed

lemma ilog2_minus [simp]: "ilog2 (- x) = ilog2 x"
  by (simp add: ilog2_def)

lemma p2_le_cancel: "(2::rat) powi a \<le> 2 powi b \<Longrightarrow> a \<le> b"
proof (rule ccontr)
  assume h: "(2::rat) powi a \<le> 2 powi b" and "\<not> a \<le> b"
  then have "b < a" by simp
  then have "(2::rat) powi b < 2 powi a" by (rule power_int_strict_increasing) simp
  with h show False by simp
qed

lemma p2_shift: "of_int (2 ^ n) * (2::rat) powi e = 2 powi (e + int n)"
proof -
  have "(2::rat) powi (e + int n) = 2 powi e * 2 powi (int n)"
    by (rule power_int_add) simp
  then show ?thesis by simp
qed

lemma fl_zero [simp]: "fl 0 = 0"
  by (simp add: fl_def)

lemma fl_minus: "fl (- x) = - fl x"
  by (simp add: fl_def Let_def rhe_minus)

lemma fl_nonneg: "0 \<le> x \<Longrightarrow> 0 \<le> fl x"
proof -
  assume x: "0 \<le> x"
  have "0 \<le> x / 2 powi (ilog2 x - 52)" using x by simp
  then have "0 \<le> \<lfloor>x / 2 powi (ilog2 x - 52)\<rfloor>" by simp
  also have "\<dots> \<le> round_half_even (x / 2 powi (ilog2 x - 52))" by (rule rhe_lower)
  finally show ?thesis by (simp add: fl_def Let_def)
qed

lemma fl_repr:
  assumes "\<bar>k\<bar> < 2 ^ 53"
  shows "fl (of_int k * 2 powi j) = of_int k * 2 powi j"
proof (cases "k = 0")
  case True
  then show ?thesis by simp
next
  case False
  let ?x = "of_int k * (2::rat) powi j"
  have nz: "?x \<noteq> 0" using False by simp
  let ?e = "ilog2 ?x - 52"
  have "\<bar>?x\<bar> = of_int \<bar>k\<bar> * 2 powi j" by (simp add: abs_mult)
  also have "\<dots> < of_int (2 ^ 53) * 2 powi j"
    using assms by (intro mult_strict_right_mono) (simp_all only: of_int_less_iff p2_pos)
  also have "\<dots> = 2 powi (53 + j)" by (simp add: power_int_add)
  finally have "\<bar>?x\<bar> < 2 powi (53 + j)" .
  with ilog2_bounds(1) [OF nz] have "(2::rat) powi (ilog2 ?x) < 2 powi (53 + j)" by simp
  then have "ilog2 ?x < 53 + j" by (rule p2_less_cancel)
  then have ej: "0 \<le> j - ?e" by simp
  have "?x / 2 powi ?e = of_int k * 2 powi (j - ?e)"
    by (simp add: power_int_diff)
  also have "\<dots> = of_int (k * 2 ^ nat (j - ?e))"
    using ej by (simp add: power_int_nonneg_exp)
  finally have "round_half_even (?x / 2 powi ?e) = k * 2 ^ nat (j - ?e)"
    by (simp only: rhe_of_int)
  then have "fl ?x = of_int (k * 2 ^ nat (j - ?e)) * 2 powi ?e"
    using nz by (simp add: fl_def Let_def)
  also have "\<dots> = of_int k * 2 powi (j - ?e) * 2 powi ?e"
    using ej by (simp add: power_int_nonneg_exp)
  also have "\<dots> = ?x"
    by (simp add: power_int_diff)
  finally show ?thesis .
qed

lemma fl_of_int: "\<bar>k\<bar> < 2 ^ 53 \<Longrightarrow> fl (of_int k) = of_int k"
  using fl_repr [of k 0] by simp

lemma fl_mono_pos:
  assumes "0 < x" "x \<le> y"
  shows "fl x \<le> fl y"
proof -
  have y: "0 < y" using assms by simp
  let ?ex = "ilog2 x - 52" and ?ey = "ilog2 y - 52"
  have fx: "fl x = of_int (round_half_even (x / 2 powi ?ex)) * 2 powi ?ex"
    using assms(1) by (simp add: fl_def Let_def)
  have fy: "fl y = of_int (round_half_even (y / 2 powi ?ey)) * 2 powi ?ey"
    using y by (simp add: fl_def Let_def)
  have le: "ilog2 x \<le> ilog2 y"
    using assms y by (intro ilog2_mono) simp_all
  show ?thesis
  proof (cases "ilog2 x = ilog2 y")
    case True
    have "x / 2 powi ?ex \<le> y / 2 powi ?ex"
      using assms(2) by (intro divide_right_mono) simp_all
    then have "round_half_even (x / 2 powi ?ex) \<le> round_half_even (y / 2 powi ?ex)"
      by (rule rhe_mono)
    then have "(of_int (round_half_even (x / 2 powi ?ex)) :: rat)
                 \<le> of_int (round_half_even (y / 2 powi ?ex))"
      by (simp only: of_int_le_iff)
    then show ?thesis
      unfolding fx fy True by (intro mult_right_mono) simp_all
  next
    case False
    with le have lt: "ilog2 x + 1 \<le> ilog2 y" by simp
    have "x / 2 powi ?ex \<le> 2 powi (ilog2 x + 1) / 2 powi ?ex"
      using ilog2_bounds(2) [of x] assms(1) by (intro divide_right_mono) simp_all
    also have "\<dots> = of_int (2 ^ 53)"
      by (simp add: power_int_diff [symmetric])
    finally have "round_half_even (x / 2 powi ?ex) \<le> round_half_even (of_int (2 ^ 53))"
      by (rule rhe_mono)
    then have "(of_int (round_half_even (x / 2 powi ?ex)) :: rat) \<le> of_int (2 ^ 53)"
      by (simp only: rhe_of_int of_int_le_iff)
    then have "fl x \<le> of_int (2 ^ 53) * 2 powi ?ex"
      unfolding fx by (intro mult_right_mono) simp_all
    also have "\<dots> = 2 powi (ilog2 x + 1)"
    proof -
      have "ilog2 x - 52 + int 53 = ilog2 x + 1" by simp
      then show ?thesis by (simp only: p2_shift)
    qed
    finally have a: "fl x \<le> 2 powi (ilog2 x + 1)" .
    have "(of_int (2 ^ 52) :: rat) = 2 powi (ilog2 y) / 2 powi ?ey"
      by (simp add: power_int_diff [symmetric])
    also have "\<dots> \<le> y / 2 powi ?ey"
      using ilog2_bounds(1) [of y] y by (intro divide_right_mono) simp_all
    finally have "round_half_even (of_int (2 ^ 52)) \<le> round_half_even (y / 2 powi ?ey)"
      by (rule rhe_mono)
    then have "(of_int (2 ^ 52) :: rat) \<le> of_int (round_half_even (y / 2 powi ?ey))"
      by (simp only: rhe_of_int of_int_le_iff)
    then have "of_int (2 ^ 52) * 2 powi ?ey \<le> fl y"
      unfolding fy by (intro mult_right_mono) simp_all
    moreover have "of_int (2 ^ 52) * 2 powi ?ey = (2::rat) powi (ilog2 y)"
    proof -
      have "ilog2 y - 52 + int 52 = ilog2 y" by simp
      then show ?thesis by (simp only: p2_shift)
    qed
    ultimately have b: "2 powi (ilog2 y) \<le> fl y" by simp
    have "(2::rat) powi (ilog2 x + 1) \<le> 2 powi (ilog2 y)"
      using lt by (intro power_int_increasing) simp_all
    with a b show ?thesis by linarith
  qed
qed

lemma fl_mono: "x \<le> y \<Longrightarrow> fl x \<le> fl y"
proof -
  assume xy: "x \<le> y"
  consider "0 < x" | "y < 0" | "x \<le> 0" "0 \<le> y" by linarith
  then show ?thesis
  proof cases
    case 1
    then show ?thesis using xy by (rule fl_mono_pos)
  next
    case 2
    then have "fl (- y) \<le> fl (- x)" using xy by (intro fl_mono_pos) simp_all
    then show ?thesis by (simp add: fl_minus)
  next
    case 3
    have "0 \<le> fl (- x)" using 3(1) by (intro fl_nonneg) simp
    then have "fl x \<le> 0" by (simp add: fl_minus)
    also have "0 \<le> fl y" using 3(2) by (rule fl_nonneg)
    finally show ?thesis .
  qed
qed

section \<open>The second of a timestamp\<close>

lemma strftime_ignores_us:
  "bind_err (datetime_of_seconds s us) (\<lambda>dt. Inr (strftime dt)) = calendar_string s"
  by (simp add: calendar_string_def datetime_of_seconds_def Let_def strftime_def
        split: prod.splits)

lemma convert_filetime_eq: "convert_filetime ft = calendar_string (utc_seconds ft)"
  by (simp add: convert_filetime_def utcfromtimestamp_def utc_seconds_def strftime_ignores_us
        split: prod.splits)

lemma us_bounds:
  assumes "- 1 \<le> f" "f \<le> 1"
  shows "- 1000000 \<le> round_half_even (fl (f * 1000000))"
    "round_half_even (fl (f * 1000000)) \<le> 1000000"
proof -
  have r: "fl (of_int 1000000) = of_int 1000000" "fl (of_int (- 1000000)) = of_int (- 1000000)"
    by (rule fl_of_int, simp)+
  have "fl (of_int (- 1000000)) \<le> fl (f * 1000000)"
    using assms(1) by (intro fl_mono) simp
  then have "round_half_even (of_int (- 1000000)) \<le> round_half_even (fl (f * 1000000))"
    unfolding r by (rule rhe_mono)
  then show "- 1000000 \<le> round_half_even (fl (f * 1000000))"
    by (simp only: rhe_of_int)
  have "fl (f * 1000000) \<le> fl (of_int 1000000)"
    using assms(2) by (intro fl_mono) simp
  then have "round_half_even (fl (f * 1000000)) \<le> round_half_even (of_int 1000000)"
    unfolding r by (rule rhe_mono)
  then show "round_half_even (fl (f * 1000000)) \<le> 1000000"
    by (simp only: rhe_of_int)
qed

lemma us_nonneg: "0 \<le> f \<Longrightarrow> 0 \<le> round_half_even (fl (f * 1000000))"
proof -
  assume "0 \<le> f"
  then have "0 \<le> fl (f * 1000000)" by (intro fl_nonneg) simp
  then have "round_half_even (of_int 0) \<le> round_half_even (fl (f * 1000000))"
    by (intro rhe_mono) simp
  then show ?thesis by (simp only: rhe_of_int)
qed

lemma us_nonpos: "f \<le> 0 \<Longrightarrow> round_half_even (fl (f * 1000000)) \<le> 0"
proof -
  assume "f \<le> 0"
  then have "0 \<le> fl (- (f * 1000000))" by (intro fl_nonneg) simp
  then have "fl (f * 1000000) \<le> 0" by (simp add: fl_minus)
  then have "round_half_even (fl (f * 1000000)) \<le> round_half_even (of_int 0)"
    by (intro rhe_mono) simp
  then show ?thesis by (simp only: rhe_of_int)
qed

lemma us_mono:
  "f \<le> g \<Longrightarrow> round_half_even (fl (f * 1000000)) \<le> round_half_even (fl (g * 1000000))"
  by (intro rhe_mono fl_mono) simp

lemma split_nonneg:
  assumes "0 \<le> x"
  shows "fst (timestamp_split x)
           = (if 1000000 \<le> us_of (x - of_int \<lfloor>x\<rfloor>) then \<lfloor>x\<rfloor> + 1 else \<lfloor>x\<rfloor>)"
proof -
  have "0 \<le> x - of_int \<lfloor>x\<rfloor>" by simp
  then have "0 \<le> us_of (x - of_int \<lfloor>x\<rfloor>)" unfolding us_of_def by (rule us_nonneg)
  then show ?thesis
    using assms by (auto simp: timestamp_split_def trunc_rat_def Let_def us_of_def)
qed

lemma split_neg:
  assumes "x < 0"
  shows "fst (timestamp_split x)
           = (if us_of (x - of_int \<lceil>x\<rceil>) < 0 then \<lceil>x\<rceil> - 1 else \<lceil>x\<rceil>)"
proof -
  have "x - of_int \<lceil>x\<rceil> \<le> 0" by simp
  then have "us_of (x - of_int \<lceil>x\<rceil>) \<le> 0" unfolding us_of_def by (rule us_nonpos)
  then show ?thesis
    using assms by (auto simp: timestamp_split_def trunc_rat_def Let_def us_of_def)
qed

lemma us_of_zero [simp]: "us_of 0 = 0"
  by (simp add: us_of_def round_half_even_def)

lemma split_of_int [simp]: "fst (timestamp_split (of_int n)) = n"
  by (cases "0 \<le> n") (simp_all add: split_nonneg split_neg not_le)

lemma split_lower: "\<lfloor>x\<rfloor> \<le> fst (timestamp_split x)"
proof (cases "0 \<le> x")
  case True
  then show ?thesis by (simp add: split_nonneg)
next
  case False
  then have neg: "x < 0" by simp
  show ?thesis
  proof (cases "x = of_int \<lfloor>x\<rfloor>")
    case True
    then have "fst (timestamp_split x) = \<lfloor>x\<rfloor>" by (metis split_of_int)
    then show ?thesis by simp
  next
    case False
    then have "\<lceil>x\<rceil> = \<lfloor>x\<rfloor> + 1" by (metis ceiling_altdef)
    then show ?thesis using neg by (simp add: split_neg)
  qed
qed

lemma split_upper: "fst (timestamp_split x) \<le> \<lceil>x\<rceil>"
proof (cases "0 \<le> x")
  case True
  show ?thesis
  proof (cases "x = of_int \<lfloor>x\<rfloor>")
    case True
    then have "fst (timestamp_split x) = \<lfloor>x\<rfloor>" by (metis split_of_int)
    then show ?thesis by (simp add: floor_le_ceiling)
  next
    case False
    then have "\<lceil>x\<rceil> = \<lfloor>x\<rfloor> + 1" by (metis ceiling_altdef)
    then show ?thesis using True by (simp add: split_nonneg)
  qed
next
  case False
  then show ?thesis by (simp add: split_neg not_le)
qed

lemma split_mono:
  assumes "x \<le> y"
  shows "fst (timestamp_split x) \<le> fst (timestamp_split y)"
proof (cases "\<lceil>x\<rceil> \<le> \<lfloor>y\<rfloor>")
  case True
  have "fst (timestamp_split x) \<le> \<lceil>x\<rceil>" by (rule split_upper)
  also have "\<dots> \<le> \<lfloor>y\<rfloor>" by fact
  also have "\<dots> \<le> fst (timestamp_split y)" by (rule split_lower)
  finally show ?thesis .
next
  case False
  then have c: "\<lfloor>y\<rfloor> < \<lceil>x\<rceil>" by simp
  have fxy: "\<lfloor>x\<rfloor> \<le> \<lfloor>y\<rfloor>" using assms by (rule floor_mono)
  have "\<lceil>x\<rceil> \<le> \<lfloor>x\<rfloor> + 1" using ceiling_diff_floor_le_1 [of x] by simp
  with c fxy have fl_eq: "\<lfloor>y\<rfloor> = \<lfloor>x\<rfloor>" and cx: "\<lceil>x\<rceil> = \<lfloor>x\<rfloor> + 1" by linarith+
  have "\<lceil>x\<rceil> \<le> \<lceil>y\<rceil>" using assms by (rule ceiling_mono)
  moreover have "\<lceil>y\<rceil> \<le> \<lfloor>y\<rfloor> + 1" using ceiling_diff_floor_le_1 [of y] by simp
  ultimately have cy: "\<lceil>y\<rceil> = \<lfloor>x\<rfloor> + 1" using cx fl_eq by linarith
  show ?thesis
  proof (cases "0 \<le> x")
    case True
    then have y0: "0 \<le> y" using assms by simp
    have "us_of (x - of_int \<lfloor>x\<rfloor>) \<le> us_of (y - of_int \<lfloor>x\<rfloor>)"
      unfolding us_of_def using assms by (intro us_mono) simp
    then show ?thesis using True y0 by (simp add: split_nonneg fl_eq)
  next
    case False
    then have x0: "x < 0" by simp
    have "y < 0"
    proof (rule ccontr)
      assume "\<not> y < 0"
      then have "0 \<le> y" by simp
      then have "0 \<le> \<lfloor>y\<rfloor>" by (simp only: zero_le_floor)
      moreover have "x \<le> of_int 0" using x0 by simp
      then have "\<lceil>x\<rceil> \<le> 0" by (simp only: ceiling_le_iff)
      ultimately show False using c by linarith
    qed
    have "us_of (x - of_int \<lceil>x\<rceil>) \<le> us_of (y - of_int \<lceil>y\<rceil>)"
      unfolding us_of_def cx cy using assms by (intro us_mono) simp
    then show ?thesis using x0 \<open>y < 0\<close> by (simp add: split_neg cx cy)
  qed
qed

lemma rhe_examples:
  "round_half_even (of_int 3999997 * 2 powi (- 2)) = 999999"
  "round_half_even (of_int (- 3) * 2 powi (- 2)) = - 1"
proof -
  have a: "(of_int 3999997 * 2 powi (- 2) :: rat) = 3999997 / 4"
    "(of_int (- 3) * 2 powi (- 2) :: rat) = - 3 / 4"
    by (simp_all add: power_int_minus)
  have b: "round_half_even (3999997 / 4) = 999999" "round_half_even (- 3 / 4) = - 1"
    by code_simp+
  show "round_half_even (of_int 3999997 * 2 powi (- 2)) = 999999"
    "round_half_even (of_int (- 3) * 2 powi (- 2)) = - 1"
    by (simp_all only: a b)
qed

lemma split_floor:
  assumes lo: "of_int n \<le> x" and hi: "x \<le> of_int n + 1 - 1 / 2 ^ 20"
  shows "fst (timestamp_split x) = n"
proof -
  have "x < of_int n + 1" using hi by (simp add: field_simps) 
  with lo have fx: "\<lfloor>x\<rfloor> = n" by (intro floor_unique) simp_all
  show ?thesis
  proof (cases "0 \<le> x")
    case True
    have "(x - of_int n) * 1000000 \<le> (1 - 1 / 2 ^ 20) * 1000000"
      using hi by (intro mult_right_mono) simp_all
    also have "\<dots> \<le> of_int 3999997 * 2 powi (- 2)"
      by (simp add: power_int_minus)
    finally have "fl ((x - of_int n) * 1000000) \<le> fl (of_int 3999997 * 2 powi (- 2))"
      by (rule fl_mono)
    also have "\<dots> = of_int 3999997 * 2 powi (- 2)"
      by (rule fl_repr) simp
    finally have "us_of (x - of_int n) \<le> round_half_even (of_int 3999997 * 2 powi (- 2))"
      unfolding us_of_def by (rule rhe_mono)
    then have "us_of (x - of_int n) < 1000000"
      by (simp only: rhe_examples)
    then show ?thesis using True by (simp add: split_nonneg fx)
  next
    case False
    then have neg: "x < 0" by simp
    show ?thesis
    proof (cases "x = of_int n")
      case True
      then show ?thesis by simp
    next
      case False
      then have cx: "\<lceil>x\<rceil> = n + 1" using fx by (metis ceiling_altdef)
      have "(x - of_int (n + 1)) * 1000000 \<le> (- (1 / 2 ^ 20)) * 1000000"
        using hi by (intro mult_right_mono) simp_all
      also have "\<dots> \<le> of_int (- 3) * 2 powi (- 2)"
        by (simp add: power_int_minus)
      finally have "fl ((x - of_int (n + 1)) * 1000000) \<le> fl (of_int (- 3) * 2 powi (- 2))"
        by (rule fl_mono)
      also have "\<dots> = of_int (- 3) * 2 powi (- 2)"
        by (rule fl_repr) simp
      finally have "us_of (x - of_int (n + 1)) \<le> round_half_even (of_int (- 3) * 2 powi (- 2))"
        unfolding us_of_def by (rule rhe_mono)
      then have "us_of (x - of_int (n + 1)) < 0"
        by (simp only: rhe_examples)
      then show ?thesis using neg by (simp add: split_neg cx)
    qed
  qed
qed

lemma split_fl_floor:
  assumes j: "j \<le> 20"
    and k: "\<bar>(n + 1) * 2 ^ j - 1\<bar> < 2 ^ 53" and n: "\<bar>n\<bar> < 2 ^ 53"
    and lo: "of_int n \<le> q" and hi: "q \<le> of_int n + 1 - 1 / 2 ^ j"
  shows "fst (timestamp_split (fl q)) = n"
proof (rule split_floor)
  have "fl (of_int n) \<le> fl q" using lo by (rule fl_mono)
  then show "of_int n \<le> fl q" using n by (simp add: fl_of_int)
  have e: "of_int ((n + 1) * 2 ^ j - 1) * 2 powi (- int j) = (of_int n + 1 - 1 / 2 ^ j :: rat)"
    by (simp add: power_int_minus field_simps)
  have "fl q \<le> fl (of_int n + 1 - 1 / 2 ^ j)" using hi by (rule fl_mono)
  also have "\<dots> = of_int n + 1 - 1 / 2 ^ j"
    using fl_repr [OF k, of "- int j"] unfolding e .
  also have "\<dots> \<le> of_int n + 1 - 1 / 2 ^ 20"
  proof -
    have "(2::rat) ^ j \<le> 2 ^ 20" using j by (intro power_increasing) simp_all
    then have "1 / (2::rat) ^ 20 \<le> 1 / 2 ^ j" by (intro divide_left_mono) simp_all
    then show ?thesis by simp
  qed
  finally show "fl q \<le> of_int n + 1 - 1 / 2 ^ 20" .
qed

lemma split_fl_range:
  assumes n: "\<bar>n\<bar> + 1 < 2 ^ 53" and lo: "of_int n \<le> q" and hi: "q \<le> of_int (n + 1)"
  shows "n \<le> fst (timestamp_split (fl q))" "fst (timestamp_split (fl q)) \<le> n + 1"
proof -
  have "fl (of_int n) \<le> fl q" using lo by (rule fl_mono)
  moreover have "fl (of_int n) = of_int n" using n by (intro fl_of_int) simp
  ultimately have a: "of_int n \<le> fl q" by simp
  have "fl q \<le> fl (of_int (n + 1))" using hi by (rule fl_mono)
  moreover have "fl (of_int (n + 1)) = of_int (n + 1)" using n by (intro fl_of_int) simp
  ultimately have b: "fl q \<le> of_int (n + 1)" by simp
  have "n \<le> \<lfloor>fl q\<rfloor>" using a by (simp only: le_floor_iff)
  also have "\<dots> \<le> fst (timestamp_split (fl q))" by (rule split_lower)
  finally show "n \<le> fst (timestamp_split (fl q))" .
  have "fst (timestamp_split (fl q)) \<le> \<lceil>fl q\<rceil>" by (rule split_upper)
  also have "\<dots> \<le> n + 1" using b by (simp only: ceiling_le_iff)
  finally show "fst (timestamp_split (fl q)) \<le> n + 1" .
qed

lemma quotient_parts:
  fixes a :: int
  defines "q \<equiv> (of_int a / of_int 10000000 :: rat)"
  shows "of_int (a div 10000000) \<le> q"
    and "q = of_int (a div 10000000) + of_int (a mod 10000000) / 10000000"
    and "q \<le> of_int (a div 10000000 + 1)"
proof -
  have "(of_int a :: rat) = of_int (10000000 * (a div 10000000)) + of_int (a mod 10000000)"
    by (simp only: of_int_add [symmetric] mult_div_mod_eq)
  also have "\<dots> = 10000000 * of_int (a div 10000000) + of_int (a mod 10000000)"
    by (simp only: of_int_mult of_int_numeral)
  finally show e: "q = of_int (a div 10000000) + of_int (a mod 10000000) / 10000000"
    unfolding q_def by (simp add: field_simps)
  have m: "0 \<le> a mod 10000000" "a mod 10000000 < 10000000" by simp_all
  then have "(0::rat) \<le> of_int (a mod 10000000)" by (simp only: of_int_0_le_iff)
  then show "of_int (a div 10000000) \<le> q" unfolding e by simp
  have "(of_int (a mod 10000000) :: rat) \<le> of_int 10000000"
    using m(2) by (simp only: of_int_le_iff)
  then show "q \<le> of_int (a div 10000000 + 1)" unfolding e by simp
qed

lemma utc_seconds_range:
  assumes "0 < ft" "ft < 2 ^ 64"
  shows "(ft - 116444736000000000) div 10000000 \<le> utc_seconds ft"
    and "utc_seconds ft \<le> (ft - 116444736000000000) div 10000000 + 1"
proof -
  let ?a = "ft - 116444736000000000"
  have "\<bar>?a div 10000000\<bar> + 1 < 2 ^ 53" using assms by simp
  from split_fl_range [OF this quotient_parts(1) quotient_parts(3)]
  show "?a div 10000000 \<le> utc_seconds ft" "utc_seconds ft \<le> ?a div 10000000 + 1"
    by (simp_all add: utc_seconds_def true_divide_def EPOCH_AS_FILETIME_def
          HUNDREDS_OF_NANOSECONDS_def)
qed

lemma utc_seconds_floor:
  assumes "0 < ft" "ft < 2 ^ 64"
    and "(ft - 116444736000000000) mod 10000000 \<le> 9995000
         \<or> \<bar>(ft - 116444736000000000) div 10000000\<bar> < 8589934591
           \<and> (ft - 116444736000000000) mod 10000000 \<le> 9999990"
  shows "utc_seconds ft = (ft - 116444736000000000) div 10000000"
proof -
  let ?a = "ft - 116444736000000000"
  let ?n = "?a div 10000000" and ?r = "?a mod 10000000"
  let ?q = "of_int ?a / of_int 10000000 :: rat"
  have nb: "- 11644473600 \<le> ?n" "?n \<le> 1833029933770" using assms(1,2) by simp_all
  have q: "?q = of_int ?n + of_int ?r / 10000000" by (rule quotient_parts(2))
  have lo: "of_int ?n \<le> ?q" by (rule quotient_parts(1))
  from assms(3) have "fst (timestamp_split (fl ?q)) = ?n"
  proof
    assume r: "?r \<le> 9995000"
    then have "(of_int ?r :: rat) \<le> of_int 9995000" by (simp only: of_int_le_iff)
    then have "?q \<le> of_int ?n + 1 - 1 / 2 ^ 11" unfolding q by simp
    moreover have "\<bar>(?n + 1) * 2 ^ 11 - 1\<bar> < 2 ^ 53" "\<bar>?n\<bar> < 2 ^ 53" using nb by simp_all
    ultimately show ?thesis using lo by (intro split_fl_floor [where j = 11]) simp_all
  next
    assume "\<bar>?n\<bar> < 8589934591 \<and> ?r \<le> 9999990"
    then have n: "\<bar>?n\<bar> < 8589934591" and r: "?r \<le> 9999990" by simp_all
    from r have "(of_int ?r :: rat) \<le> of_int 9999990" by (simp only: of_int_le_iff)
    then have "?q \<le> of_int ?n + 1 - 1 / 2 ^ 20" unfolding q by simp
    moreover have "\<bar>(?n + 1) * 2 ^ 20 - 1\<bar> < 2 ^ 53" "\<bar>?n\<bar> < 2 ^ 53" using n by simp_all
    ultimately show ?thesis using lo by (intro split_fl_floor [where j = 20]) simp_all
  qed
  then show ?thesis
    by (simp add: utc_seconds_def true_divide_def EPOCH_AS_FILETIME_def
          HUNDREDS_OF_NANOSECONDS_def)
qed

section \<open>The conversion of a filetime\<close>

text \<open>
  Claim C4 (as amended). For a filetime that is not zero and fits 64 bits, let \<open>n\<close> be the
  whole seconds \<open>(ft - 116444736000000000) div 10000000\<close>. The source divides in double
  precision and \<^verbatim>\<open>utcfromtimestamp\<close> rounds the fraction half-even to microseconds before
  \<^verbatim>\<open>strftime\<close> drops them, so the text returned (or the exception raised) is that of \<open>n\<close>
  or of \<open>n + 1\<close>. It is that of \<open>n\<close> whenever the remainder
  \<open>(ft - 116444736000000000) mod 10000000\<close> is at most 9995000, and also whenever \<open>n\<close> is
  within \<open>2\<^sup>3\<^sup>3\<close> seconds of 1970 and the remainder is at most 9999990. The filetime
  116444736000000000 gives \<^verbatim>\<open>1970-01-01 00:00:00 (UTC)\<close>.
\<close>

theorem convert_filetime_whole_seconds:
  "(0 < ft \<and> ft < 2 ^ 64 \<longrightarrow>
      (convert_filetime ft
         = calendar_string ((ft - EPOCH_AS_FILETIME) div HUNDREDS_OF_NANOSECONDS)
       \<or> convert_filetime ft
         = calendar_string ((ft - EPOCH_AS_FILETIME) div HUNDREDS_OF_NANOSECONDS + 1))
      \<and> ((ft - EPOCH_AS_FILETIME) mod HUNDREDS_OF_NANOSECONDS \<le> 9995000 \<longrightarrow>
           convert_filetime ft
             = calendar_string ((ft - EPOCH_AS_FILETIME) div HUNDREDS_OF_NANOSECONDS))
      \<and> (\<bar>(ft - EPOCH_AS_FILETIME) div HUNDREDS_OF_NANOSECONDS\<bar> < 8589934591
           \<and> (ft - EPOCH_AS_FILETIME) mod HUNDREDS_OF_NANOSECONDS \<le> 9999990 \<longrightarrow>
           convert_filetime ft
             = calendar_string ((ft - EPOCH_AS_FILETIME) div HUNDREDS_OF_NANOSECONDS)))
   \<and> convert_filetime 116444736000000000 = Inr ''1970-01-01 00:00:00 (UTC)''"
proof (intro conjI impI)
  show "convert_filetime 116444736000000000 = Inr ''1970-01-01 00:00:00 (UTC)''"
    by code_simp
next
  assume h: "0 < ft \<and> ft < 2 ^ 64"
  from utc_seconds_range [of ft] h
  have "utc_seconds ft = (ft - 116444736000000000) div 10000000
        \<or> utc_seconds ft = (ft - 116444736000000000) div 10000000 + 1"
    by linarith
  then show "convert_filetime ft
         = calendar_string ((ft - EPOCH_AS_FILETIME) div HUNDREDS_OF_NANOSECONDS)
       \<or> convert_filetime ft
         = calendar_string ((ft - EPOCH_AS_FILETIME) div HUNDREDS_OF_NANOSECONDS + 1)"
    unfolding convert_filetime_eq EPOCH_AS_FILETIME_def HUNDREDS_OF_NANOSECONDS_def by auto
next
  assume h: "0 < ft \<and> ft < 2 ^ 64"
    and r: "(ft - EPOCH_AS_FILETIME) mod HUNDREDS_OF_NANOSECONDS \<le> 9995000"
  from h r have "utc_seconds ft = (ft - 116444736000000000) div 10000000"
    by (intro utc_seconds_floor)
       (simp_all add: EPOCH_AS_FILETIME_def HUNDREDS_OF_NANOSECONDS_def)
  then show "convert_filetime ft
         = calendar_string ((ft - EPOCH_AS_FILETIME) div HUNDREDS_OF_NANOSECONDS)"
    unfolding convert_filetime_eq EPOCH_AS_FILETIME_def HUNDREDS_OF_NANOSECONDS_def by simp
next
  assume h: "0 < ft \<and> ft < 2 ^ 64"
    and r: "\<bar>(ft - EPOCH_AS_FILETIME) div HUNDREDS_OF_NANOSECONDS\<bar> < 8589934591
           \<and> (ft - EPOCH_AS_FILETIME) mod HUNDREDS_OF_NANOSECONDS \<le> 9999990"
  from h r have "utc_seconds ft = (ft - 116444736000000000) div 10000000"
    by (intro utc_seconds_floor)
       (simp_all add: EPOCH_AS_FILETIME_def HUNDREDS_OF_NANOSECONDS_def)
  then show "convert_filetime ft
         = calendar_string ((ft - EPOCH_AS_FILETIME) div HUNDREDS_OF_NANOSECONDS)"
    unfolding convert_filetime_eq EPOCH_AS_FILETIME_def HUNDREDS_OF_NANOSECONDS_def by simp
qed

theorem convert_filetime_whole_seconds_witness:
  "(let ft = 132223104001234567 :: int
    in 0 < ft \<and> ft < 2 ^ 64
       \<and> (ft - EPOCH_AS_FILETIME) div HUNDREDS_OF_NANOSECONDS = 1577836800
       \<and> (ft - EPOCH_AS_FILETIME) mod HUNDREDS_OF_NANOSECONDS \<le> 9995000
       \<and> convert_filetime ft = calendar_string 1577836800
       \<and> calendar_string 1577836800 = Inr ''2020-01-01 00:00:00 (UTC)'')
   \<and> (let ft = 132223104009999990 :: int
      in 0 < ft \<and> ft < 2 ^ 64
         \<and> (ft - EPOCH_AS_FILETIME) div HUNDREDS_OF_NANOSECONDS = 1577836800
         \<and> \<bar>(ft - EPOCH_AS_FILETIME) div HUNDREDS_OF_NANOSECONDS\<bar> < 8589934591
         \<and> (ft - EPOCH_AS_FILETIME) mod HUNDREDS_OF_NANOSECONDS \<le> 9999990
         \<and> convert_filetime ft = calendar_string 1577836800)"
proof -
  let ?a = "132223104001234567 :: int" and ?b = "132223104009999990 :: int"
  have a: "0 < ?a \<and> ?a < 2 ^ 64"
    "(?a - EPOCH_AS_FILETIME) mod HUNDREDS_OF_NANOSECONDS \<le> 9995000"
    and a': "(?a - EPOCH_AS_FILETIME) div HUNDREDS_OF_NANOSECONDS = 1577836800"
    by (simp_all add: EPOCH_AS_FILETIME_def HUNDREDS_OF_NANOSECONDS_def)
  have b: "0 < ?b \<and> ?b < 2 ^ 64"
    "\<bar>(?b - EPOCH_AS_FILETIME) div HUNDREDS_OF_NANOSECONDS\<bar> < 8589934591
      \<and> (?b - EPOCH_AS_FILETIME) mod HUNDREDS_OF_NANOSECONDS \<le> 9999990"
    and b': "(?b - EPOCH_AS_FILETIME) div HUNDREDS_OF_NANOSECONDS = 1577836800"
    by (simp_all add: EPOCH_AS_FILETIME_def HUNDREDS_OF_NANOSECONDS_def)
  have c: "calendar_string 1577836800 = Inr ''2020-01-01 00:00:00 (UTC)''"
    by code_simp
  from convert_filetime_whole_seconds [of ?a] a
  have ra: "convert_filetime ?a
              = calendar_string ((?a - EPOCH_AS_FILETIME) div HUNDREDS_OF_NANOSECONDS)"
    by blast
  from convert_filetime_whole_seconds [of ?b] b
  have rb: "convert_filetime ?b
              = calendar_string ((?b - EPOCH_AS_FILETIME) div HUNDREDS_OF_NANOSECONDS)"
    by blast
  show ?thesis
    unfolding Let_def using a b c ra rb unfolding a' b' by blast
qed

text \<open>
  The claim as stated, that the text is always that of the whole seconds \<open>n\<close>, fails in
  the last ticks of a second: 9999999 ticks after the epoch offset the source returns
  \<^verbatim>\<open>1970-01-01 00:00:01 (UTC)\<close>, where the whole seconds are 0.
\<close>

theorem convert_filetime_floor_counterexample:
  "convert_filetime 116444736009999999 = Inr ''1970-01-01 00:00:01 (UTC)''
   \<and> calendar_string ((116444736009999999 - EPOCH_AS_FILETIME) div HUNDREDS_OF_NANOSECONDS)
       = Inr ''1970-01-01 00:00:00 (UTC)''"
  by code_simp

section \<open>The order of formatted numbers\<close>

lemma of_char_digit: "d < 10 \<Longrightarrow> of_char (digit_char d) = 48 + d"
  by (simp add: digit_char_def)

lemma digit_char_less: "a < 10 \<Longrightarrow> b < 10 \<Longrightarrow> digit_char a < digit_char b \<longleftrightarrow> a < b"
  by (simp add: less_char_def of_char_digit)

lemma digit_char_eq: "a < 10 \<Longrightarrow> b < 10 \<Longrightarrow> digit_char a = digit_char b \<longleftrightarrow> a = b"
  by (auto dest: arg_cong [where f = "of_char :: char \<Rightarrow> nat"] simp: of_char_digit)

lemma digit_char_0: "digit_char 0 = CHR ''0''"
  by code_simp

lemma digits_zero: "digits k 0 = replicate k CHR ''0''"
  by (induction k) (simp_all add: digit_char_0 replicate_append_same)

lemma length_digits [simp]: "length (digits k n) = k"
  by (induction k arbitrary: n) simp_all

lemma pad_dec_nat:
  "n < 10 ^ Suc k \<Longrightarrow>
     length (dec_nat n) \<le> Suc k
     \<and> replicate (Suc k - length (dec_nat n)) CHR ''0'' @ dec_nat n = digits (Suc k) n"
proof (induction k arbitrary: n)
  case 0
  then show ?case by (simp add: dec_nat.simps [of n])
next
  case (Suc k)
  show ?case
  proof (cases "n < 10")
    case True
    then show ?thesis
      by (simp add: dec_nat.simps [of n] digits_zero replicate_append_same)
  next
    case False
    have "n div 10 < 10 ^ Suc k" using Suc.prems by simp
    from Suc.IH [OF this] False show ?thesis
      by (simp add: dec_nat.simps [of n] Suc_diff_le)
  qed
qed

lemma fmt_0d_digits:
  "0 \<le> i \<Longrightarrow> i < 10 ^ Suc k \<Longrightarrow> fmt_0d (Suc k) i = digits (Suc k) (nat i)"
proof -
  assume h: "0 \<le> i" "i < 10 ^ Suc k"
  then have "nat i < 10 ^ Suc k"
    by (metis nat_less_iff of_nat_numeral of_nat_power)
  from pad_dec_nat [OF this] h(1) show ?thesis
    by (simp add: fmt_0d_def Let_def)
qed

lemma less_div_mod_10:
  "(a::nat) < b \<longleftrightarrow> a div 10 < b div 10 \<or> a div 10 = b div 10 \<and> a mod 10 < b mod 10"
proof -
  define qa ra qb rb where "qa = a div 10" and "ra = a mod 10" and "qb = b div 10" and "rb = b mod 10"
  have a: "a = 10 * qa + ra" and b: "b = 10 * qb + rb" and r: "ra < 10" "rb < 10"
    by (simp_all add: qa_def ra_def qb_def rb_def)
  have "10 * qa + ra < 10 * qb + rb \<longleftrightarrow> qa < qb \<or> qa = qb \<and> ra < rb"
    using r by linarith
  moreover have "a < b \<longleftrightarrow> 10 * qa + ra < 10 * qb + rb"
    by (simp only: a [symmetric] b [symmetric])
  ultimately have "a < b \<longleftrightarrow> qa < qb \<or> qa = qb \<and> ra < rb"
    by (rule trans [rotated])
  then show ?thesis
    unfolding qa_def ra_def qb_def rb_def .
qed

lemma eq_div_mod_10:
  "(a::nat) = b \<longleftrightarrow> a div 10 = b div 10 \<and> a mod 10 = b mod 10"
  by (metis div_mult_mod_eq)

lemma digits_less:
  "a < 10 ^ k \<Longrightarrow> b < 10 ^ k \<Longrightarrow>
     digits k a @ r < digits k b @ s \<longleftrightarrow> a < b \<or> a = b \<and> r < s"
proof (induction k arbitrary: a b r s)
  case 0
  then show ?case by simp
next
  case (Suc k)
  have d: "a div 10 < 10 ^ k" "b div 10 < 10 ^ k" using Suc.prems by simp_all
  have m: "a mod 10 < 10" "b mod 10 < 10" by simp_all
  have "digits (Suc k) a @ r < digits (Suc k) b @ s
        \<longleftrightarrow> digits k (a div 10) @ (digit_char (a mod 10) # r)
            < digits k (b div 10) @ (digit_char (b mod 10) # s)"
    by simp
  also have "\<dots> \<longleftrightarrow> a div 10 < b div 10
               \<or> a div 10 = b div 10
                 \<and> (a mod 10 < b mod 10 \<or> a mod 10 = b mod 10 \<and> r < s)"
    by (simp add: Suc.IH [OF d] digit_char_less [OF m] digit_char_eq [OF m])
  also have "\<dots> \<longleftrightarrow> a < b \<or> a = b \<and> r < s"
    using less_div_mod_10 [of a b] eq_div_mod_10 [of a b] by blast
  finally show ?case .
qed

lemma fmt_0d_2:
  assumes "0 \<le> i" "i < 100"
  shows "fmt_0d 2 i = digits 2 (nat i)"
proof -
  have e: "Suc 1 = 2" by simp
  have "i < 10 ^ Suc 1" using assms(2) by simp
  from fmt_0d_digits [OF assms(1) this] show ?thesis unfolding e .
qed

lemma fmt_0d_4:
  assumes "0 \<le> i" "i < 10000"
  shows "fmt_0d 4 i = digits 4 (nat i)"
proof -
  have e: "Suc 3 = 4" by simp
  have "i < 10 ^ Suc 3" using assms(2) by simp
  from fmt_0d_digits [OF assms(1) this] show ?thesis unfolding e .
qed

lemma digits_2_less:
  assumes "0 \<le> a" "a < 100" "0 \<le> b" "b < 100"
  shows "digits 2 (nat a) @ r < digits 2 (nat b) @ s \<longleftrightarrow> a < b \<or> a = b \<and> r < s"
proof -
  have "nat a < 10 ^ 2" "nat b < 10 ^ 2" using assms by simp_all
  from digits_less [OF this, of r s]
  have "digits 2 (nat a) @ r < digits 2 (nat b) @ s \<longleftrightarrow> nat a < nat b \<or> nat a = nat b \<and> r < s" .
  moreover have "nat a < nat b \<longleftrightarrow> a < b" "nat a = nat b \<longleftrightarrow> a = b" using assms by linarith+
  ultimately show ?thesis by simp
qed

lemma digits_4_less:
  assumes "0 \<le> a" "a < 10000" "0 \<le> b" "b < 10000"
  shows "digits 4 (nat a) @ r < digits 4 (nat b) @ s \<longleftrightarrow> a < b \<or> a = b \<and> r < s"
proof -
  have "nat a < 10 ^ 4" "nat b < 10 ^ 4" using assms by simp_all
  from digits_less [OF this, of r s]
  have "digits 4 (nat a) @ r < digits 4 (nat b) @ s \<longleftrightarrow> nat a < nat b \<or> nat a = nat b \<and> r < s" .
  moreover have "nat a < nat b \<longleftrightarrow> a < b" "nat a = nat b \<longleftrightarrow> a = b" using assms by linarith+
  ultimately show ?thesis by simp
qed

lemma strftime_less:
  assumes "0 \<le> year a" "year a < 10000" "0 \<le> year b" "year b < 10000"
    and "0 \<le> month a" "month a < 100" "0 \<le> month b" "month b < 100"
    and "0 \<le> day a" "day a < 100" "0 \<le> day b" "day b < 100"
    and "0 \<le> hour a" "hour a < 100" "0 \<le> hour b" "hour b < 100"
    and "0 \<le> minute a" "minute a < 100" "0 \<le> minute b" "minute b < 100"
    and "0 \<le> second a" "second a < 100" "0 \<le> second b" "second b < 100"
  shows "strftime a < strftime b \<longleftrightarrow>
     year a < year b \<or> year a = year b \<and>
     (month a < month b \<or> month a = month b \<and>
     (day a < day b \<or> day a = day b \<and>
     (hour a < hour b \<or> hour a = hour b \<and>
     (minute a < minute b \<or> minute a = minute b \<and> second a < second b))))"
proof -
  have e: "strftime x = digits 4 (nat (year x)) @ CHR ''-'' # digits 2 (nat (month x)) @ CHR ''-''
      # digits 2 (nat (day x)) @ CHR '' '' # digits 2 (nat (hour x)) @ CHR '':''
      # digits 2 (nat (minute x)) @ CHR '':'' # digits 2 (nat (second x)) @ '' (UTC)''"
    if "0 \<le> year x" "year x < 10000" "0 \<le> month x" "month x < 100" "0 \<le> day x" "day x < 100"
      "0 \<le> hour x" "hour x < 100" "0 \<le> minute x" "minute x < 100"
      "0 \<le> second x" "second x < 100" for x
    using that by (simp add: strftime_def fmt_0d_2 fmt_0d_4)
  show ?thesis
    using assms
    by (simp only: e digits_2_less digits_4_less Cons_less_Cons less_irrefl simp_thms)
qed

section \<open>The order of dates\<close>

lemma div_step:
  fixes y k :: int
  assumes "0 < k"
  shows "y div k - (y - 1) div k = (if y mod k = 0 then 1 else 0)"
proof -
  define q r where "q = y div k" and "r = y mod k"
  have y: "y = k * q + r" and r: "0 \<le> r" "r < k"
    using assms by (simp_all add: q_def r_def)
  show ?thesis
  proof (cases "r = 0")
    case True
    have "y - 1 = k * (q - 1) + (k - 1)" using y True by (simp add: algebra_simps)
    then have "(y - 1) div k = q - 1"
      by (rule int_div_pos_eq) (use assms in simp_all)
    then show ?thesis using True by (simp add: q_def [symmetric] r_def [symmetric])
  next
    case False
    have "y - 1 = k * q + (r - 1)" using y by simp
    then have "(y - 1) div k = q"
      by (rule int_div_pos_eq) (use r False in simp_all)
    then show ?thesis using False by (simp add: q_def [symmetric] r_def [symmetric])
  qed
qed

lemma mod_400_100: "(y::int) mod 400 = 0 \<Longrightarrow> y mod 100 = 0"
proof -
  assume "y mod 400 = 0"
  then have "400 dvd y" by (simp add: dvd_eq_mod_eq_0)
  moreover have "(100::int) dvd 400" by simp
  ultimately have "100 dvd y" by (rule dvd_trans [rotated])
  then show ?thesis by (simp add: dvd_eq_mod_eq_0)
qed

lemma mod_100_4: "(y::int) mod 100 = 0 \<Longrightarrow> y mod 4 = 0"
proof -
  assume "y mod 100 = 0"
  then have "100 dvd y" by (simp add: dvd_eq_mod_eq_0)
  moreover have "(4::int) dvd 100" by simp
  ultimately have "4 dvd y" by (rule dvd_trans [rotated])
  then show ?thesis by (simp add: dvd_eq_mod_eq_0)
qed

lemma days_before_year_Suc:
  "days_before_year (y + 1) = days_before_year y + (if is_leap y then 366 else 365)"
proof -
  define a4 b4 a100 b100 a400 b400
    where "a4 = y div 4" and "b4 = (y - 1) div 4"
      and "a100 = y div 100" and "b100 = (y - 1) div 100"
      and "a400 = y div 400" and "b400 = (y - 1) div 400"
  have s: "a4 - b4 = (if y mod 4 = 0 then 1 else 0)"
    "a100 - b100 = (if y mod 100 = 0 then 1 else 0)"
    "a400 - b400 = (if y mod 400 = 0 then 1 else 0)"
    unfolding a4_def b4_def a100_def b100_def a400_def b400_def
    by (rule div_step, simp)+
  have e1: "days_before_year (y + 1) = y * 365 + a4 - a100 + a400"
    by (simp add: days_before_year_def a4_def a100_def a400_def)
  have e2: "days_before_year y = (y - 1) * 365 + b4 - b100 + b400"
    by (simp only: days_before_year_def b4_def b100_def b400_def)
  have e3: "(y - 1) * 365 = y * 365 - 365" by (simp add: algebra_simps)
  consider "y mod 400 = 0" | "y mod 400 \<noteq> 0" "y mod 100 = 0"
    | "y mod 100 \<noteq> 0" "y mod 4 = 0" | "y mod 4 \<noteq> 0"
    by blast
  then show ?thesis
  proof cases
    case 1
    then have m: "y mod 100 = 0" "y mod 4 = 0"
      using mod_400_100 [of y] mod_100_4 [of y] by simp_all
    have "is_leap y" using 1 m by (simp add: is_leap_def)
    moreover have "a4 - b4 = 1" "a100 - b100 = 1" "a400 - b400 = 1"
      using s 1 m by simp_all
    ultimately show ?thesis unfolding e1 e2 e3 by simp
  next
    case 2
    then have m: "y mod 4 = 0" using mod_100_4 [of y] by simp
    have "\<not> is_leap y" using 2 by (simp add: is_leap_def)
    moreover have "a4 - b4 = 1" "a100 - b100 = 1" "a400 - b400 = 0"
      using s 2 m by simp_all
    ultimately show ?thesis unfolding e1 e2 e3 by simp
  next
    case 3
    then have m: "y mod 400 \<noteq> 0" using mod_400_100 [of y] by auto
    have "is_leap y" using 3 by (simp add: is_leap_def)
    moreover have "a4 - b4 = 1" "a100 - b100 = 0" "a400 - b400 = 0"
      using s 3 m by simp_all
    ultimately show ?thesis unfolding e1 e2 e3 by simp
  next
    case 4
    then have m: "y mod 100 \<noteq> 0" "y mod 400 \<noteq> 0"
      using mod_400_100 [of y] mod_100_4 [of y] by auto
    have "\<not> is_leap y" using 4 by (simp add: is_leap_def)
    moreover have "a4 - b4 = 0" "a100 - b100 = 0" "a400 - b400 = 0"
      using s 4 m by simp_all
    ultimately show ?thesis unfolding e1 e2 e3 by simp
  qed
qed

lemma dby_decomp:
  fixes a b c e :: int
  assumes "0 \<le> b" "b \<le> 3" "0 \<le> c" "c \<le> 24" "0 \<le> e" "e \<le> 3"
  shows "days_before_year (400 * a + 100 * b + 4 * c + e + 1)
           = 146097 * a + 36524 * b + 1461 * c + 365 * e"
proof -
  define Y where "Y = 400 * a + 100 * b + 4 * c + e"
  have "Y = 4 * (100 * a + 25 * b + c) + e" by (simp add: Y_def)
  then have d4: "Y div 4 = 100 * a + 25 * b + c"
    by (rule int_div_pos_eq) (use assms in simp_all)
  have "Y = 100 * (4 * a + b) + (4 * c + e)" by (simp add: Y_def)
  then have d100: "Y div 100 = 4 * a + b"
    by (rule int_div_pos_eq) (use assms in simp_all)
  have "Y = 400 * a + (100 * b + 4 * c + e)" by (simp add: Y_def)
  then have d400: "Y div 400 = a"
    by (rule int_div_pos_eq) (use assms in simp_all)
  have "days_before_year (Y + 1) = Y * 365 + Y div 4 - Y div 100 + Y div 400"
    by (simp add: days_before_year_def)
  also have "\<dots> = 146097 * a + 36524 * b + 1461 * c + 365 * e"
    unfolding d4 d100 d400 by (simp add: Y_def)
  finally show ?thesis by (simp add: Y_def)
qed

lemma leap_decomp:
  fixes a b c e :: int
  assumes "0 \<le> b" "b \<le> 3" "0 \<le> c" "c \<le> 24" "0 \<le> e" "e \<le> 3"
  shows "is_leap (400 * a + 100 * b + 4 * c + e + 1) \<longleftrightarrow> e = 3 \<and> (c \<noteq> 24 \<or> b = 3)"
proof -
  define y where "y = 400 * a + 100 * b + 4 * c + e + 1"
  have "is_leap y \<longleftrightarrow> e = 3 \<and> (c \<noteq> 24 \<or> b = 3)"
  proof (cases "e = 3")
    case False
    have "y = 4 * (100 * a + 25 * b + c) + (e + 1)" by (simp add: y_def)
    then have "y mod 4 = e + 1"
      by (rule int_mod_pos_eq) (use assms False in simp_all)
    then have "y mod 4 \<noteq> 0" using assms by simp
    then show ?thesis using False by (simp add: is_leap_def)
  next
    case e: True
    have "y = 4 * (100 * a + 25 * b + c + 1) + 0" using e by (simp add: y_def)
    then have m4: "y mod 4 = 0" by (rule int_mod_pos_eq) simp_all
    show ?thesis
    proof (cases "c = 24")
      case False
      have "y = 100 * (4 * a + b) + (4 * c + 4)" using e by (simp add: y_def)
      then have "y mod 100 = 4 * c + 4"
        by (rule int_mod_pos_eq) (use assms False in simp_all)
      then have "y mod 100 \<noteq> 0" using assms by simp
      then show ?thesis using e False m4 by (simp add: is_leap_def)
    next
      case c: True
      have "y = 100 * (4 * a + b + 1) + 0" using e c by (simp add: y_def)
      then have m100: "y mod 100 = 0" by (rule int_mod_pos_eq) simp_all
      show ?thesis
      proof (cases "b = 3")
        case False
        have "y = 400 * a + (100 * b + 100)" using e c by (simp add: y_def)
        then have "y mod 400 = 100 * b + 100"
          by (rule int_mod_pos_eq) (use assms False in simp_all)
        then have "y mod 400 \<noteq> 0" using assms by simp
        then show ?thesis using e c False m4 m100 by (simp add: is_leap_def)
      next
        case True
        have "y = 400 * (a + 1) + 0" using e c True by (simp add: y_def)
        then have "y mod 400 = 0" by (rule int_mod_pos_eq) simp_all
        then show ?thesis using e c True m4 m100 by (simp add: is_leap_def)
      qed
    qed
  qed
  then show ?thesis unfolding y_def .
qed

lemma month_cases:
  fixes m :: int
  assumes "1 \<le> m" "m \<le> 12"
  shows "m = 1 \<or> m = 2 \<or> m = 3 \<or> m = 4 \<or> m = 5 \<or> m = 6 \<or> m = 7 \<or> m = 8 \<or> m = 9
         \<or> m = 10 \<or> m = 11 \<or> m = 12"
  using assms by arith

lemma month_day_valid:
  assumes "0 \<le> doy" "doy < (if is_leap y then 366 else 365)"
    and "month_day (is_leap y) doy = (m, d)"
  shows "1 \<le> m \<and> m \<le> 12 \<and> 1 \<le> d \<and> d \<le> days_in_month y m
         \<and> days_before_month y m + d = doy + 1"
proof -
  define k where "k = (doy + 50) div 32"
  have "doy + 50 = 32 * k + (doy + 50) mod 32" by (simp add: k_def)
  moreover have "0 \<le> (doy + 50) mod 32" "(doy + 50) mod 32 < 32" by simp_all
  ultimately have kb: "32 * k \<le> doy + 50" "doy + 50 < 32 * k + 32" by linarith+
  have d365: "doy \<le> 365" using assms(2) by (simp split: if_splits)
  have "1 \<le> k" "k \<le> 12" using kb assms(1) d365 by linarith+
  then have kc: "k = 1 \<or> k = 2 \<or> k = 3 \<or> k = 4 \<or> k = 5 \<or> k = 6 \<or> k = 7 \<or> k = 8 \<or> k = 9
         \<or> k = 10 \<or> k = 11 \<or> k = 12" by (rule month_cases)
  note defs = month_day_def Let_def k_def [symmetric] days_in_month_def days_before_month_def
    DAYS_BEFORE_MONTH_def DAYS_IN_MONTH_def
  from kc show ?thesis
  proof (elim disjE)
    assume "k = 1" with assms kb show ?thesis by (auto simp: defs split: if_splits)
  next
    assume "k = 2" with assms kb show ?thesis by (auto simp: defs split: if_splits)
  next
    assume "k = 3" with assms kb show ?thesis by (auto simp: defs split: if_splits)
  next
    assume "k = 4" with assms kb show ?thesis by (auto simp: defs split: if_splits)
  next
    assume "k = 5" with assms kb show ?thesis by (auto simp: defs split: if_splits)
  next
    assume "k = 6" with assms kb show ?thesis by (auto simp: defs split: if_splits)
  next
    assume "k = 7" with assms kb show ?thesis by (auto simp: defs split: if_splits)
  next
    assume "k = 8" with assms kb show ?thesis by (auto simp: defs split: if_splits)
  next
    assume "k = 9" with assms kb show ?thesis by (auto simp: defs split: if_splits)
  next
    assume "k = 10" with assms kb show ?thesis by (auto simp: defs split: if_splits)
  next
    assume "k = 11" with assms kb show ?thesis by (auto simp: defs split: if_splits)
  next
    assume "k = 12" with assms kb show ?thesis by (auto simp: defs split: if_splits)
  qed
qed

lemma ord2ymd_valid:
  assumes "ord2ymd n = (y, m, d)"
  shows "1 \<le> m \<and> m \<le> 12 \<and> 1 \<le> d \<and> d \<le> days_in_month y m \<and> ymd2ord y m d = n"
proof -
  define a r1 where "a = (n - 1) div 146097" and "r1 = (n - 1) mod 146097"
  define b r2 where "b = r1 div 36524" and "r2 = r1 mod 36524"
  define c r3 where "c = r2 div 1461" and "r3 = r2 mod 1461"
  define e r4 where "e = r3 div 365" and "r4 = r3 mod 365"
  have eq: "ord2ymd n =
      (if e = 4 \<or> b = 4 then (a * 400 + 1 + b * 100 + c * 4 + e - 1, 12, 31)
       else (case month_day (e = 3 \<and> (c \<noteq> 24 \<or> b = 3)) r4 of
               (m, d) \<Rightarrow> (a * 400 + 1 + b * 100 + c * 4 + e, m, d)))"
    unfolding ord2ymd_def month_day_def Let_def a_def [symmetric] r1_def [symmetric]
      b_def [symmetric] r2_def [symmetric] c_def [symmetric] r3_def [symmetric]
      e_def [symmetric] r4_def [symmetric]
    by (simp only: if_distrib [of "case_prod f" for f] prod.case if_cancel cong: if_cong)
  have d1: "n - 1 = 146097 * a + r1" and b1: "0 \<le> r1" "r1 < 146097"
    by (simp_all add: a_def r1_def)
  have d2: "r1 = 36524 * b + r2" and b2: "0 \<le> r2" "r2 < 36524"
    by (simp_all add: b_def r2_def)
  have d3: "r2 = 1461 * c + r3" and b3: "0 \<le> r3" "r3 < 1461"
    by (simp_all add: c_def r3_def)
  have d4: "r3 = 365 * e + r4" and b4: "0 \<le> r4" "r4 < 365"
    by (simp_all add: e_def r4_def)
  have bb: "0 \<le> b" "b \<le> 4" using d2 b1 b2 by linarith+
  have cb: "0 \<le> c" "c \<le> 24" using d3 b2 b3 by linarith+
  have eb: "0 \<le> e" "e \<le> 4" using d4 b3 b4 by linarith+
  have n: "n - 1 = 146097 * a + 36524 * b + 1461 * c + 365 * e + r4"
    using d1 d2 d3 d4 by linarith
  show ?thesis
  proof (cases "e = 4 \<or> b = 4")
    case True
    with assms eq have ymd: "y = 400 * a + 100 * b + 4 * c + e" "m = 12" "d = 31"
      by simp_all
    have "is_leap y \<and> days_before_year y + 365 = n - 1"
    proof (cases "b = 4")
      case True
      with d2 b1 b2 have "r2 = 0" by linarith
      with d3 cb b3 have "c = 0" "r3 = 0" by linarith+
      with d4 eb b4 have "e = 0" "r4 = 0" by linarith+
      have y: "y = 400 * a + 100 * 3 + 4 * 24 + 3 + 1"
        using ymd(1) True \<open>c = 0\<close> \<open>e = 0\<close> by simp
      have "is_leap y" unfolding y by (subst leap_decomp) simp_all
      moreover have "days_before_year y = 146097 * a + 36524 * 3 + 1461 * 24 + 365 * 3"
        unfolding y by (rule dby_decomp) simp_all
      ultimately show ?thesis
        using n True \<open>c = 0\<close> \<open>e = 0\<close> \<open>r4 = 0\<close> by simp
    next
      case False
      with True bb have e4: "e = 4" and b3': "b \<le> 3" by simp_all
      with d4 b3 b4 have "r4 = 0" by linarith
      from e4 d4 d3 b2 b4 have "c \<le> 23" by linarith
      have y: "y = 400 * a + 100 * b + 4 * c + 3 + 1"
        using ymd(1) e4 by simp
      have "is_leap y" unfolding y using bb(1) b3' cb(1) \<open>c \<le> 23\<close>
        by (subst leap_decomp) simp_all
      moreover have "days_before_year y = 146097 * a + 36524 * b + 1461 * c + 365 * 3"
        unfolding y using bb(1) b3' cb(1) \<open>c \<le> 23\<close> by (intro dby_decomp) simp_all
      ultimately show ?thesis
        using n e4 \<open>r4 = 0\<close> by simp
    qed
    then show ?thesis
      unfolding ymd ymd2ord_def days_before_month_def days_in_month_def
      by (simp add: DAYS_BEFORE_MONTH_def DAYS_IN_MONTH_def ymd(1) [symmetric])
  next
    case False
    with bb eb have b3': "b \<le> 3" and e3: "e \<le> 3" by simp_all
    let ?L = "e = 3 \<and> (c \<noteq> 24 \<or> b = 3)"
    from assms eq False have md: "month_day ?L r4 = (m, d)" and
      y: "y = 400 * a + 100 * b + 4 * c + e + 1"
      by (auto split: prod.splits)
    have L: "is_leap y \<longleftrightarrow> ?L"
      unfolding y using bb(1) b3' cb eb(1) e3 by (rule leap_decomp)
    have dby: "days_before_year y = 146097 * a + 36524 * b + 1461 * c + 365 * e"
      unfolding y using bb(1) b3' cb eb(1) e3 by (rule dby_decomp)
    have "r4 < (if is_leap y then 366 else 365)" using b4(2) by simp
    from month_day_valid [OF b4(1) this] md L
    have v: "1 \<le> m \<and> m \<le> 12 \<and> 1 \<le> d \<and> d \<le> days_in_month y m
         \<and> days_before_month y m + d = r4 + 1"
      by simp
    then have "ymd2ord y m d = n" using dby n by (simp add: ymd2ord_def)
    with v show ?thesis by simp
  qed
qed

lemma days_before_year_mono:
  assumes "y1 < y2"
  shows "days_before_year y1 + (if is_leap y1 then 366 else 365) \<le> days_before_year y2"
proof -
  have "days_before_year (y1 + 1) \<le> days_before_year (y1 + 1 + int k)" for k
  proof (induction k)
    case 0
    then show ?case by simp
  next
    case (Suc k)
    have "days_before_year (y1 + 1 + int k) \<le> days_before_year (y1 + 1 + int k + 1)"
      by (simp only: days_before_year_Suc split: if_splits) simp
    moreover have "y1 + 1 + int (Suc k) = y1 + 1 + int k + 1" by simp
    ultimately show ?case using Suc by simp
  qed
  from this [of "nat (y2 - y1 - 1)"] assms
  have "days_before_year (y1 + 1) \<le> days_before_year y2" by simp
  then show ?thesis by (simp only: days_before_year_Suc)
qed

lemma date_in_year:
  assumes "1 \<le> m" "m \<le> 12" "1 \<le> d" "d \<le> days_in_month y m"
  shows "days_before_month y m + d \<le> (if is_leap y then 366 else 365)"
    and "0 \<le> days_before_month y m" and "d \<le> 31"
  using month_cases [OF assms(1,2)] assms(3,4)
  by (auto simp: days_before_month_def days_in_month_def DAYS_BEFORE_MONTH_def DAYS_IN_MONTH_def
        split: if_splits)

lemma month_before:
  assumes "1 \<le> m1" "m1 < m2" "m2 \<le> 12"
  shows "days_before_month y m1 + days_in_month y m1 \<le> days_before_month y m2"
proof -
  have a: "m1 \<le> 12" "1 \<le> m2" using assms by simp_all
  show ?thesis
    using month_cases [OF assms(1) a(1)] month_cases [OF a(2) assms(3)] assms(2)
    by (elim disjE)
       (simp_all add: days_before_month_def days_in_month_def DAYS_BEFORE_MONTH_def
          DAYS_IN_MONTH_def)
qed

lemma ymd2ord_strict_mono:
  assumes v1: "1 \<le> m1" "m1 \<le> 12" "1 \<le> d1" "d1 \<le> days_in_month y1 m1"
    and v2: "1 \<le> m2" "m2 \<le> 12" "1 \<le> d2" "d2 \<le> days_in_month y2 m2"
    and lt: "y1 < y2 \<or> y1 = y2 \<and> (m1 < m2 \<or> m1 = m2 \<and> d1 < d2)"
  shows "ymd2ord y1 m1 d1 < ymd2ord y2 m2 d2"
proof -
  note i1 = date_in_year [OF v1] and i2 = date_in_year [OF v2]
  from lt consider "y1 < y2" | "y1 = y2" "m1 < m2" | "y1 = y2" "m1 = m2" "d1 < d2" by blast
  then show ?thesis
  proof cases
    case 1
    from days_before_year_mono [OF this] i1(1) i2(2) v2(3) show ?thesis
      unfolding ymd2ord_def by linarith
  next
    case 2
    from month_before [OF v1(1) 2(2) v2(2), of y1] v1(4) v2(3) show ?thesis
      unfolding ymd2ord_def 2(1) [symmetric] by linarith
  next
    case 3
    then show ?thesis unfolding ymd2ord_def by simp
  qed
qed

lemma ord2ymd_strict_mono:
  assumes "n1 < n2" "ord2ymd n1 = (y1, m1, d1)" "ord2ymd n2 = (y2, m2, d2)"
  shows "y1 < y2 \<or> y1 = y2 \<and> (m1 < m2 \<or> m1 = m2 \<and> d1 < d2)"
proof (rule ccontr)
  assume n: "\<not> ?thesis"
  note a = ord2ymd_valid [OF assms(2)] and b = ord2ymd_valid [OF assms(3)]
  from n consider "y1 = y2 \<and> m1 = m2 \<and> d1 = d2"
    | "y2 < y1 \<or> y2 = y1 \<and> (m2 < m1 \<or> m2 = m1 \<and> d2 < d1)" by linarith
  then show False
  proof cases
    case 1
    with a b have "n1 = n2" by simp
    with assms(1) show False by simp
  next
    case 2
    from ymd2ord_strict_mono [OF _ _ _ _ _ _ _ _ this] a b have "n2 < n1" by simp
    with assms(1) show False by simp
  qed
qed

end
